theory Spec2Isabelle
  imports Complex_Main
begin

section \<open>JSON values and exceptions\<close>

text \<open>
  Payloads arrive as decoded JSON (\<^verbatim>\<open>json.loads\<close>): nested dicts, lists, strings,
  integers, booleans and \<^verbatim>\<open>None\<close>. A dict is an association list in insertion order
  with one entry per key. Non-integral JSON numbers are left out of the model.
\<close>

datatype json =
    JNull
  | JBool bool
  | JInt int
  | JStr string
  | JList "json list"
  | JDict "(string \<times> json) list"

datatype exn =
    ManualCloseException
  | KeyError string
  | TypeError
  | AttributeError
  | ConnectionClosed
  | JSONDecodeError
  | ResponseException json

text \<open>\<^verbatim>\<open>obj[key]\<close> with a string key: only a dict can be subscripted that way.\<close>

fun getitem :: "json \<Rightarrow> string \<Rightarrow> exn + json" where
  "getitem (JDict kvs) k = (case map_of kvs k of None \<Rightarrow> Inl (KeyError k) | Some v \<Rightarrow> Inr v)"
| "getitem _ k = Inl TypeError"

text \<open>\<^verbatim>\<open>v == n\<close> for an integer \<open>n\<close>: Python's \<^verbatim>\<open>True\<close> and \<^verbatim>\<open>False\<close> are the
  integers 1 and 0; values of other types are never equal to an integer.\<close>

fun py_eq_int :: "json \<Rightarrow> int \<Rightarrow> bool" where
  "py_eq_int (JInt m) n = (m = n)"
| "py_eq_int (JBool b) n = ((if b then 1 else 0) = n)"
| "py_eq_int _ n = False"

text \<open>Truthiness of a value (\<^verbatim>\<open>if v:\<close>).\<close>

fun truthy :: "json \<Rightarrow> bool" where
  "truthy JNull = False"
| "truthy (JBool b) = b"
| "truthy (JInt n) = (n \<noteq> 0)"
| "truthy (JStr t) = (t \<noteq> [])"
| "truthy (JList xs) = (xs \<noteq> [])"
| "truthy (JDict kvs) = (kvs \<noteq> [])"

text \<open>\<^verbatim>\<open>key in obj\<close> for a string key: a key of a dict, an element of a list, a
  substring of a string; any other value is not a container.\<close>

fun starts_with :: "string \<Rightarrow> string \<Rightarrow> bool" where
  "starts_with t [] = True"
| "starts_with [] (c # k) = False"
| "starts_with (x # t) (c # k) = (x = c \<and> starts_with t k)"

fun substring :: "string \<Rightarrow> string \<Rightarrow> bool" where
  "substring k [] = (k = [])"
| "substring k (c # t) = (starts_with (c # t) k \<or> substring k t)"

fun py_in :: "string \<Rightarrow> json \<Rightarrow> exn + bool" where
  "py_in k (JDict kvs) = Inr (map_of kvs k \<noteq> None)"
| "py_in k (JList xs) = Inr (List.member xs (JStr k))"
| "py_in k (JStr t) = Inr (substring k t)"
| "py_in k _ = Inl TypeError"

text \<open>\<^verbatim>\<open>for item in obj\<close>: the elements of a list, the keys of a dict, the characters
  of a string.\<close>

fun py_iter :: "json \<Rightarrow> exn + json list" where
  "py_iter (JList xs) = Inr xs"
| "py_iter (JDict kvs) = Inr (map (\<lambda>kv. JStr (fst kv)) kvs)"
| "py_iter (JStr t) = Inr (map (\<lambda>c. JStr [c]) t)"
| "py_iter _ = Inl TypeError"

text \<open>\<^verbatim>\<open>dict[key] = value\<close> on an insertion-ordered dict: an existing key keeps its
  place, a new key goes last.\<close>

fun dict_set :: "'k \<Rightarrow> 'v \<Rightarrow> ('k \<times> 'v) list \<Rightarrow> ('k \<times> 'v) list" where
  "dict_set k v [] = [(k, v)]"
| "dict_set k v ((k', v') # kvs) =
     (if k' = k then (k, v) # kvs else (k', v') # dict_set k v kvs)"

text \<open>\<^verbatim>\<open>dict.update(other)\<close>.\<close>

fun dict_update :: "('k \<times> 'v) list \<Rightarrow> ('k \<times> 'v) list \<Rightarrow> ('k \<times> 'v) list" where
  "dict_update kvs [] = kvs"
| "dict_update kvs ((k, v) # other) = dict_update (dict_set k v kvs) other"

text \<open>Lists and dicts cannot be keys of a dict.\<close>

fun hashable :: "json \<Rightarrow> bool" where
  "hashable (JList xs) = False"
| "hashable (JDict kvs) = False"
| "hashable _ = True"

section \<open>The KOOK gateway session\<close>

text \<open>The dataclass \<^verbatim>\<open>WSPayload\<close>: opcode \<open>s\<close>, payload \<open>d\<close>, sequence number \<open>sn\<close>
  (\<open>None\<close> when the frame has none) and \<open>extra\<close>.\<close>

record WSPayload =
  s :: int
  d :: json
  sn :: "int option"
  extra :: json

text \<open>
  Coroutines handed to \<^verbatim>\<open>asyncio.create_task\<close>, each with the point where it is
  suspended: not started yet, asleep in \<^verbatim>\<open>asyncio.sleep(1)\<close> with its local counter
  \<open>sec\<close>, returned, or ended by an exception.
\<close>

datatype pc =
    Created
  | Sleeping nat
  | Finished
  | Failed exn

datatype task =
    Handler string json pc
  | HeartbeatInterval pc
  | WaitHeartbeat pc

text \<open>
  The fields of \<^verbatim>\<open>KOOKBotInstance\<close> that the read loop and the heartbeat tasks touch.
  \<open>connection\<close> is \<open>True\<close> while \<^verbatim>\<open>self.connection\<close> holds a socket and \<open>False\<close> when
  it is \<^verbatim>\<open>None\<close>. \<open>sent\<close> is the list of frames written to the socket and \<open>tasks\<close>
  the list of tasks created so far, both oldest first.
\<close>

record KOOKBotInstance =
  keep_run :: bool
  ws_url :: json
  connection :: bool
  pong :: int
  last_sn :: int
  session :: "json option"
  sent :: "WSPayload list"
  tasks :: "task list"

definition still_alive :: "KOOKBotInstance \<Rightarrow> bool" where
  "still_alive st = (keep_run st \<and> connection st)"

text \<open>\<^verbatim>\<open>close_connection\<close>: close the socket if there is one, then forget it.\<close>

definition close_connection :: "KOOKBotInstance \<Rightarrow> KOOKBotInstance" where
  "close_connection st = st\<lparr>connection := False\<rparr>"

text \<open>\<^verbatim>\<open>self.connection.send(frame)\<close>: an attribute error when there is no socket.
  Sending on an open socket is taken to succeed.\<close>

definition send :: "WSPayload \<Rightarrow> KOOKBotInstance \<Rightarrow> exn option \<times> KOOKBotInstance" where
  "send frame st =
     (if connection st then (None, st\<lparr>sent := sent st @ [frame]\<rparr>)
      else (Some AttributeError, st))"

text \<open>The branch \<^verbatim>\<open>if payload.s == 1\<close> of the read loop. An exception leaves the
  fields as they were written up to the raise.\<close>

definition on_hello :: "WSPayload \<Rightarrow> KOOKBotInstance \<Rightarrow> exn option \<times> KOOKBotInstance" where
  "on_hello p st =
     (case getitem (d p) ''code'' of
        Inl e \<Rightarrow> (Some e, st)
      | Inr code \<Rightarrow>
          if \<not> py_eq_int code 0
          then (Some ManualCloseException, st\<lparr>ws_url := JStr [], last_sn := 0\<rparr>)
          else
            (case (if last_sn st \<noteq> 0
                   then send \<lparr>s = 4, d = JNull, sn = Some (last_sn st), extra = JNull\<rparr> st
                   else (None, st)) of
               (Some e, st1) \<Rightarrow> (Some e, st1)
             | (None, st1) \<Rightarrow>
                 (case getitem (d p) ''session_id'' of
                    Inl e \<Rightarrow> (Some e, st1)
                  | Inr sid \<Rightarrow>
                      (None, st1\<lparr>session := Some sid,
                                 tasks := tasks st1 @ [HeartbeatInterval Created]\<rparr>))))"

text \<open>One pass of the body of the read loop, from the decoded payload on
  (lines 70 to 103 of the adapter).\<close>

definition process_frame :: "WSPayload \<Rightarrow> KOOKBotInstance \<Rightarrow> exn option \<times> KOOKBotInstance" where
  "process_frame p st =
     (let st1 = (case sn p of None \<Rightarrow> st | Some n \<Rightarrow> st\<lparr>last_sn := n\<rparr>);
          st2 = (if s p = 0 then st1\<lparr>tasks := tasks st1 @ [Handler ''event'' (d p) Created]\<rparr> else st1)
      in case (if s p = 1 then on_hello p st2 else (None, st2)) of
           (Some e, st3) \<Rightarrow> (Some e, st3)
         | (None, st3) \<Rightarrow>
             (let st4 = (if s p = 3 then st3\<lparr>pong := 1\<rparr> else st3);
                  st5 = (if s p = 5
                         then close_connection (st4\<lparr>ws_url := JStr [], last_sn := 0\<rparr>)
                         else st4);
                  st6 = (case sn p of
                           None \<Rightarrow> st5
                         | Some n \<Rightarrow> if n \<noteq> 0 then st5\<lparr>last_sn := n\<rparr> else st5)
              in (None, st6)))"

text \<open>A hello frame whose payload carries a status code other than 0: the case in
  which the read loop raises \<^verbatim>\<open>ManualCloseException\<close>.\<close>

definition handshake_failed :: "WSPayload \<Rightarrow> bool" where
  "handshake_failed p =
     (s p = 1 \<and> (case getitem (d p) ''code'' of Inl e \<Rightarrow> False | Inr code \<Rightarrow> \<not> py_eq_int code 0))"

text \<open>A hello frame whose payload carries the status code 0 and a session id.\<close>

definition handshake_ok :: "WSPayload \<Rightarrow> bool" where
  "handshake_ok p =
     (s p = 1 \<and>
      (case getitem (d p) ''code'' of Inl e \<Rightarrow> False | Inr code \<Rightarrow> py_eq_int code 0) \<and>
      (case getitem (d p) ''session_id'' of Inl e \<Rightarrow> False | Inr sid \<Rightarrow> True))"

text \<open>The resume request \<^verbatim>\<open>WSPayload(4, sn=n)\<close>.\<close>

definition resume_request :: "int \<Rightarrow> WSPayload" where
  "resume_request n = \<lparr>s = 4, d = JNull, sn = Some n, extra = JNull\<rparr>"

subsection \<open>The read loop and one connection attempt\<close>

text \<open>
  What \<^verbatim>\<open>await websocket.recv()\<close> followed by the decoding of the frame gives:
  a payload, a frame that does not decode into a \<^verbatim>\<open>WSPayload\<close>, or the exception of
  a socket that was closed.
\<close>

datatype recv =
    Frame WSPayload
  | Undecodable
  | Closed

text \<open>How a coroutine stands after a finite run: still waiting for input, returned, or
  left by an exception.\<close>

datatype outcome =
    Waiting
  | Returned
  | Raised exn

text \<open>The loop \<^verbatim>\<open>while self.__still_alive\<close> over the frames received.\<close>

fun read_loop :: "recv list \<Rightarrow> KOOKBotInstance \<Rightarrow> outcome \<times> KOOKBotInstance" where
  "read_loop [] st = (if still_alive st then (Waiting, st) else (Returned, st))"
| "read_loop (ev # evs) st =
     (if \<not> still_alive st then (Returned, st)
      else
        (case ev of
           Frame p \<Rightarrow>
             (case process_frame p st of
                (Some e, st') \<Rightarrow> (Raised e, st')
              | (None, st') \<Rightarrow> read_loop evs st')
         | Undecodable \<Rightarrow> (Raised JSONDecodeError, st)
         | Closed \<Rightarrow> (Raised ConnectionClosed, st)))"

text \<open>
  \<^verbatim>\<open>__connect\<close>. When no gateway address is cached it is requested first: \<open>gateway\<close>
  is what \<^verbatim>\<open>get_request('/gateway/index')\<close> gives, an exception or the decoded
  response (\<open>None\<close> for no response). Then the socket is opened and the read loop runs.
  The \<^verbatim>\<open>finally\<close> clause closes the connection whenever the body is left.
\<close>

definition request_gateway :: "exn + json option \<Rightarrow> KOOKBotInstance \<Rightarrow> exn option \<times> KOOKBotInstance" where
  "request_gateway gateway st =
     (if truthy (ws_url st) then (None, st)
      else
        (case gateway of
           Inl e \<Rightarrow> (Some e, st)
         | Inr None \<Rightarrow> (Some ManualCloseException, st)
         | Inr (Some resp) \<Rightarrow>
             if \<not> truthy resp then (Some ManualCloseException, st)
             else
               (case getitem resp ''data'' of
                  Inl e \<Rightarrow> (Some e, st)
                | Inr dat \<Rightarrow>
                    (case getitem dat ''url'' of
                       Inl e \<Rightarrow> (Some e, st)
                     | Inr url \<Rightarrow> (None, st\<lparr>ws_url := url\<rparr>)))))"

definition private_connect ::
    "exn + json option \<Rightarrow> recv list \<Rightarrow> KOOKBotInstance \<Rightarrow> outcome \<times> KOOKBotInstance" where
  "private_connect gateway evs st =
     (case request_gateway gateway st of
        (Some e, st1) \<Rightarrow> (Raised e, close_connection st1)
      | (None, st1) \<Rightarrow>
          (case read_loop evs (st1\<lparr>connection := True\<rparr>) of
             (Waiting, st2) \<Rightarrow> (Waiting, st2)
           | (r, st2) \<Rightarrow> (r, close_connection st2)))"

subsection \<open>The heartbeat tasks\<close>

text \<open>The frame \<^verbatim>\<open>WSPayload(2, sn=n)\<close>.\<close>

definition heartbeat_frame :: "int \<Rightarrow> WSPayload" where
  "heartbeat_frame n = \<lparr>s = 2, d = JNull, sn = Some n, extra = JNull\<rparr>"

text \<open>
  \<^verbatim>\<open>heartbeat_interval\<close>, run from where it is suspended to its next
  \<^verbatim>\<open>asyncio.sleep(1)\<close> or to its end. The test of the \<^verbatim>\<open>while\<close> loop comes after the
  body, before the next sleep.
\<close>

definition heartbeat_loop :: "nat \<Rightarrow> KOOKBotInstance \<Rightarrow> pc \<times> KOOKBotInstance" where
  "heartbeat_loop sec st = (if still_alive st then (Sleeping sec, st) else (Finished, st))"

fun heartbeat_interval :: "pc \<Rightarrow> KOOKBotInstance \<Rightarrow> pc \<times> KOOKBotInstance" where
  "heartbeat_interval Created st = heartbeat_loop 0 st"
| "heartbeat_interval (Sleeping sec) st =
     (if Suc sec \<ge> 30
      then
        (case send (heartbeat_frame (last_sn st)) st of
           (Some e, st') \<Rightarrow> (Failed e, st')
         | (None, st') \<Rightarrow>
             heartbeat_loop 0 (st'\<lparr>tasks := tasks st' @ [WaitHeartbeat Created]\<rparr>))
      else heartbeat_loop (Suc sec) st)"
| "heartbeat_interval Finished st = (Finished, st)"
| "heartbeat_interval (Failed e) st = (Failed e, st)"

text \<open>
  \<^verbatim>\<open>wait_heartbeat\<close>, run in the same way. When its loop is left it writes
  \<^verbatim>\<open>self.pong = 0\<close> and returns.
\<close>

definition wait_loop :: "nat \<Rightarrow> KOOKBotInstance \<Rightarrow> pc \<times> KOOKBotInstance" where
  "wait_loop sec st =
     (if pong st = 0 \<and> still_alive st then (Sleeping sec, st)
      else (Finished, st\<lparr>pong := 0\<rparr>))"

fun wait_heartbeat :: "pc \<Rightarrow> KOOKBotInstance \<Rightarrow> pc \<times> KOOKBotInstance" where
  "wait_heartbeat Created st = wait_loop 0 st"
| "wait_heartbeat (Sleeping sec) st =
     wait_loop (Suc sec) (if Suc sec \<ge> 30 then close_connection st else st)"
| "wait_heartbeat Finished st = (Finished, st)"
| "wait_heartbeat (Failed e) st = (Failed e, st)"

text \<open>The event handler of the application runs outside the adapter: its task is only
  marked as finished.\<close>

fun run_task :: "task \<Rightarrow> KOOKBotInstance \<Rightarrow> task \<times> KOOKBotInstance" where
  "run_task (Handler name payload c) st = (Handler name payload Finished, st)"
| "run_task (HeartbeatInterval c) st =
     (case heartbeat_interval c st of (c', st') \<Rightarrow> (HeartbeatInterval c', st'))"
| "run_task (WaitHeartbeat c) st =
     (case wait_heartbeat c st of (c', st') \<Rightarrow> (WaitHeartbeat c', st'))"

text \<open>\<^verbatim>\<open>close\<close>: stop the outer loop and close the connection.\<close>

definition close :: "KOOKBotInstance \<Rightarrow> KOOKBotInstance" where
  "close st = close_connection (st\<lparr>keep_run := False\<rparr>)"

text \<open>
  The tasks are scheduled cooperatively: between two \<^verbatim>\<open>await\<close>s a task runs alone.
  One step of the session is one such run: the read loop takes a frame, the task at
  index \<open>i\<close> is resumed, a new connection is opened, the connection attempt ends
  (its \<^verbatim>\<open>finally\<close> clause), or the application calls \<^verbatim>\<open>close\<close>.
\<close>

datatype action =
    Deliver WSPayload
  | Resume nat
  | Open
  | Leave
  | Close

fun step :: "action \<Rightarrow> KOOKBotInstance \<Rightarrow> KOOKBotInstance" where
  "step (Deliver p) st = snd (process_frame p st)"
| "step (Resume i) st =
     (if i < length (tasks st)
      then (case run_task (tasks st ! i) st of
              (t', st') \<Rightarrow> st'\<lparr>tasks := (tasks st')[i := t']\<rparr>)
      else st)"
| "step Open st = st\<lparr>connection := True\<rparr>"
| "step Leave st = close_connection st"
| "step Close st = close st"

text \<open>A run of the session: the steps of a list of actions, in order.\<close>

fun run :: "action list \<Rightarrow> KOOKBotInstance \<Rightarrow> KOOKBotInstance" where
  "run [] st = st"
| "run (a # as) st = run as (step a st)"

subsection \<open>Example sessions and frames\<close>

text \<open>A connected session that holds the sequence number \<open>n\<close>, with the tasks \<open>ts\<close>.\<close>

definition session_holding :: "int \<Rightarrow> task list \<Rightarrow> KOOKBotInstance" where
  "session_holding n ts =
     \<lparr>keep_run = True, ws_url = JStr ''wss://gateway'', connection = True, pong = 0,
      last_sn = n, session = None, sent = [], tasks = ts\<rparr>"

text \<open>A hello frame that accepts the handshake, with the sequence field \<open>n\<close>.\<close>

definition hello_frame :: "int option \<Rightarrow> WSPayload" where
  "hello_frame n =
     \<lparr>s = 1, d = JDict [(''code'', JInt 0), (''session_id'', JStr ''abc'')], sn = n,
      extra = JNull\<rparr>"

text \<open>A hello frame that rejects the handshake with the code 40003.\<close>

definition rejected_frame :: "int option \<Rightarrow> WSPayload" where
  "rejected_frame n = \<lparr>s = 1, d = JDict [(''code'', JInt 40003)], sn = n, extra = JNull\<rparr>"

text \<open>A frame of opcode \<open>k\<close> with no payload.\<close>

definition bare_frame :: "int \<Rightarrow> int option \<Rightarrow> WSPayload" where
  "bare_frame k n = \<lparr>s = k, d = JNull, sn = n, extra = JNull\<rparr>"

subsection \<open>Kinds of steps\<close>

text \<open>The step resumes a watchdog (\<^verbatim>\<open>wait_heartbeat\<close>) that then returns.\<close>

definition watchdog_returns :: "action \<Rightarrow> KOOKBotInstance \<Rightarrow> bool" where
  "watchdog_returns a st =
     (case a of
        Resume i \<Rightarrow>
          i < length (tasks st) \<and>
          (case tasks st ! i of
             WaitHeartbeat c \<Rightarrow> c \<noteq> Finished \<and> fst (wait_heartbeat c st) = Finished
           | _ \<Rightarrow> False)
      | _ \<Rightarrow> False)"

text \<open>The step writes a heartbeat frame (opcode 2) to the socket.\<close>

definition sends_heartbeat :: "action \<Rightarrow> KOOKBotInstance \<Rightarrow> bool" where
  "sends_heartbeat a st =
     (sent (step a st) = sent st @ [heartbeat_frame (last_sn st)])"

text \<open>The step is the read loop taking a heartbeat acknowledgment (opcode 3).\<close>

definition takes_ack :: "action \<Rightarrow> bool" where
  "takes_ack a = (case a of Deliver p \<Rightarrow> s p = 3 | _ \<Rightarrow> False)"

subsection \<open>The outer loop\<close>

text \<open>
  Where the coroutine \<^verbatim>\<open>connect\<close> is suspended: in \<^verbatim>\<open>websocket.recv()\<close> inside
  \<^verbatim>\<open>__connect\<close>, in the \<^verbatim>\<open>asyncio.sleep(10)\<close> of the outer loop, returned because
  \<^verbatim>\<open>keep_run\<close> is off, or ended by an exception that nothing caught. What wakes it: the
  pending \<^verbatim>\<open>recv\<close> completes, or the sleep is over.
\<close>

datatype control =
    InRecv
  | InBackoff
  | Ended
  | Crashed exn

datatype wake =
    Received recv
  | Slept

text \<open>
  Leaving \<^verbatim>\<open>__connect\<close> from inside the \<^verbatim>\<open>async with\<close> block: the \<^verbatim>\<open>finally\<close> clause
  closes the connection. \<^verbatim>\<open>__connect\<close> has no \<^verbatim>\<open>except\<close> clause, so an exception goes
  on to \<^verbatim>\<open>connect\<close> and ends it unless the context manager of
  \<^verbatim>\<open>get_websocket_connection\<close> absorbs it. That context manager is not among the
  sources: \<open>absorbs\<close> says which exceptions it takes.
\<close>

definition leave_connect ::
    "(exn \<Rightarrow> bool) \<Rightarrow> exn option \<Rightarrow> KOOKBotInstance \<Rightarrow> control \<times> KOOKBotInstance" where
  "leave_connect absorbs raised st =
     (case raised of
        None \<Rightarrow> (InBackoff, close_connection st)
      | Some e \<Rightarrow> (if absorbs e then InBackoff else Crashed e, close_connection st))"

text \<open>
  \<^verbatim>\<open>connect\<close> (lines 44 to 46) with the \<^verbatim>\<open>__connect\<close> it awaits, run from one
  suspension to the next. A frame is processed and the guard of the read loop tested;
  a \<^verbatim>\<open>recv\<close> that fails leaves \<^verbatim>\<open>__connect\<close>. After the sleep the outer loop tests
  \<^verbatim>\<open>keep_run\<close> and starts the next \<^verbatim>\<open>__connect\<close>: the gateway request, whose exception
  is raised outside the \<^verbatim>\<open>async with\<close> block, then the new socket.
\<close>

fun connect ::
    "(exn \<Rightarrow> bool) \<Rightarrow> exn + json option \<Rightarrow> wake \<Rightarrow> control \<times> KOOKBotInstance \<Rightarrow>
     control \<times> KOOKBotInstance" where
  "connect absorbs gateway (Received (Frame p)) (InRecv, st) =
     (case process_frame p st of
        (Some e, st') \<Rightarrow> leave_connect absorbs (Some e) st'
      | (None, st') \<Rightarrow>
          if still_alive st' then (InRecv, st') else leave_connect absorbs None st')"
| "connect absorbs gateway (Received Undecodable) (InRecv, st) =
     leave_connect absorbs (Some JSONDecodeError) st"
| "connect absorbs gateway (Received Closed) (InRecv, st) =
     leave_connect absorbs (Some ConnectionClosed) st"
| "connect absorbs gateway Slept (InBackoff, st) =
     (if \<not> keep_run st then (Ended, st)
      else
        (case request_gateway gateway st of
           (Some e, st1) \<Rightarrow> (Crashed e, close_connection st1)
         | (None, st1) \<Rightarrow> (InRecv, st1\<lparr>connection := True\<rparr>)))"
| "connect absorbs gateway w (c, st) = (c, st)"

text \<open>What the pending \<^verbatim>\<open>recv\<close> brings lets \<^verbatim>\<open>__connect\<close> return: a frame that is
  processed without an exception, or an exception that the context manager absorbs.\<close>

definition ends_attempt :: "(exn \<Rightarrow> bool) \<Rightarrow> recv \<Rightarrow> KOOKBotInstance \<Rightarrow> bool" where
  "ends_attempt absorbs r st =
     (case r of
        Frame p \<Rightarrow> (case fst (process_frame p st) of None \<Rightarrow> True | Some e \<Rightarrow> absorbs e)
      | Undecodable \<Rightarrow> absorbs JSONDecodeError
      | Closed \<Rightarrow> absorbs ConnectionClosed)"

text \<open>
  During a run, whenever the task at index \<open>i\<close> is resumed it finds no acknowledgment
  (\<open>pong\<close> is 0) and the session alive. Each resumption of a watchdog but the first
  follows one \<^verbatim>\<open>asyncio.sleep(1)\<close>, so 30 of them after the first are its window of 30
  seconds.
\<close>

fun watched :: "nat \<Rightarrow> action list \<Rightarrow> KOOKBotInstance \<Rightarrow> bool" where
  "watched i [] st = True"
| "watched i (a # as) st =
     ((a = Resume i \<longrightarrow> pong st = 0 \<and> still_alive st) \<and> watched i as (step a st))"

text \<open>How often a task has been resumed, read from where it is suspended.\<close>

fun stage :: "pc \<Rightarrow> nat" where
  "stage Created = 0"
| "stage (Sleeping sec) = Suc sec"
| "stage Finished = 0"
| "stage (Failed e) = 0"

text \<open>A session with a watchdog just created; a run in which a dispatch frame arrives
  and the watchdog is resumed 30 times; a context manager that absorbs every
  exception.\<close>

definition watchdog_session :: "KOOKBotInstance" where
  "watchdog_session = session_holding 42 [WaitHeartbeat Created]"

definition quiet_window :: "action list" where
  "quiet_window = Deliver (bare_frame 0 (Some 43)) # replicate 30 (Resume 0)"

definition absorbs_all :: "exn \<Rightarrow> bool" where
  "absorbs_all e = True"

subsection \<open>The role cache\<close>

text \<open>
  What the HTTP layer hands to \<^verbatim>\<open>__check_response\<close>: no text at all (\<^verbatim>\<open>None\<close>), a
  text that is not JSON, or a decoded body.
\<close>

datatype response =
    NoResponse
  | NotJson
  | Body json

definition check_response :: "response \<Rightarrow> exn + json option" where
  "check_response r =
     (case r of
        NoResponse \<Rightarrow> Inr None
      | NotJson \<Rightarrow> Inl (ResponseException (JInt (- 1)))
      | Body data \<Rightarrow>
          (case py_in ''code'' data of
             Inl e \<Rightarrow> Inl e
           | Inr False \<Rightarrow> Inr (Some data)
           | Inr True \<Rightarrow>
               (case getitem data ''code'' of
                  Inl e \<Rightarrow> Inl e
                | Inr code \<Rightarrow>
                    if \<not> py_eq_int code 0 then Inl (ResponseException code)
                    else Inr (Some data))))"

text \<open>
  The class \<^verbatim>\<open>RolePermissionCache\<close>: for each guild the time of the last recorded
  fetch and the roles fetched (role id to permissions). Times are the seconds of
  \<^verbatim>\<open>time.time()\<close>, taken as real numbers.
\<close>

record RolePermissionCache =
  cache_create_time :: "string \<rightharpoonup> real"
  guild_role :: "string \<rightharpoonup> (json \<times> json) list"

text \<open>The loop \<^verbatim>\<open>roles[item['role_id']] = item['permissions']\<close>: the right-hand side is
  evaluated first.\<close>

fun collect_roles :: "json list \<Rightarrow> (json \<times> json) list \<Rightarrow> exn + (json \<times> json) list" where
  "collect_roles [] roles = Inr roles"
| "collect_roles (item # items) roles =
     (case getitem item ''permissions'' of
        Inl e \<Rightarrow> Inl e
      | Inr perms \<Rightarrow>
          (case getitem item ''role_id'' of
             Inl e \<Rightarrow> Inl e
           | Inr rid \<Rightarrow>
               if hashable rid then collect_roles items (dict_set rid perms roles)
               else Inl TypeError))"

text \<open>The branches after the request: store the roles of a response that is truthy,
  otherwise delete the entry of the guild if there is one.\<close>

definition delete_roles :: "string \<Rightarrow> RolePermissionCache \<Rightarrow> RolePermissionCache" where
  "delete_roles guild_id c = c\<lparr>guild_role := (guild_role c)(guild_id := None)\<rparr>"

definition store_roles :: "json option \<Rightarrow> string \<Rightarrow> RolePermissionCache \<Rightarrow> exn + RolePermissionCache" where
  "store_roles res guild_id c =
     (case res of
        None \<Rightarrow> Inr (delete_roles guild_id c)
      | Some body \<Rightarrow>
          if \<not> truthy body then Inr (delete_roles guild_id c)
          else
            (case getitem body ''data'' of
               Inl e \<Rightarrow> Inl e
             | Inr dat \<Rightarrow>
                 (case getitem dat ''items'' of
                    Inl e \<Rightarrow> Inl e
                  | Inr items \<Rightarrow>
                      (case py_iter items of
                         Inl e \<Rightarrow> Inl e
                       | Inr xs \<Rightarrow>
                           (case collect_roles xs [] of
                              Inl e \<Rightarrow> Inl e
                            | Inr roles \<Rightarrow>
                                Inr (c\<lparr>guild_role := (guild_role c)(guild_id \<mapsto> roles)\<rparr>))))))"

text \<open>The entry of the guild is younger than 10 seconds at the time \<open>now\<close>.\<close>

definition within_ttl :: "real \<Rightarrow> string \<Rightarrow> RolePermissionCache \<Rightarrow> bool" where
  "within_ttl now guild_id c =
     (case cache_create_time c guild_id of None \<Rightarrow> False | Some t \<Rightarrow> now - t < 10)"

text \<open>
  \<^verbatim>\<open>record_role_list\<close>. \<open>now\<close> is the clock at the test of the age, \<open>resp\<close> what the
  request for the role list brings, \<open>later\<close> the clock when the time of the fetch is
  recorded. The result is the exception raised if any, the cache, and the requests
  made (the guilds asked for).
\<close>

definition record_role_list ::
    "real \<Rightarrow> response \<Rightarrow> real \<Rightarrow> string \<Rightarrow> RolePermissionCache \<Rightarrow>
     exn option \<times> RolePermissionCache \<times> string list" where
  "record_role_list now resp later guild_id c =
     (if within_ttl now guild_id c then (None, c, [])
      else
        (case check_response resp of
           Inl e \<Rightarrow> (Some e, c, [guild_id])
         | Inr res \<Rightarrow>
             (case store_roles res guild_id c of
                Inl e \<Rightarrow> (Some e, c, [guild_id])
              | Inr c' \<Rightarrow>
                  (None,
                   c'\<lparr>cache_create_time := (cache_create_time c')(guild_id \<mapsto> later)\<rparr>,
                   [guild_id]))))"

text \<open>The refetch came back empty: no response, or a body that is falsy.\<close>

definition came_back_empty :: "response \<Rightarrow> bool" where
  "came_back_empty resp =
     (case check_response resp of
        Inl e \<Rightarrow> False
      | Inr None \<Rightarrow> True
      | Inr (Some body) \<Rightarrow> \<not> truthy body)"

text \<open>A cache that holds, for the guild \<open>g\<close>, one role fetched at the time 0.\<close>

definition stale_cache :: "RolePermissionCache" where
  "stale_cache =
     \<lparr>cache_create_time = [''g'' \<mapsto> 0], guild_role = [''g'' \<mapsto> [(JInt 7, JInt 1)]]\<rparr>"

text \<open>The body of an API error.\<close>

definition error_body :: "json" where
  "error_body = JDict [(''code'', JInt 40000), (''message'', JStr ''failed'')]"

section \<open>Handler registries\<close>

text \<open>
  A registry (\<^verbatim>\<open>BotHandlerFactory\<close>) holds Python lists, which are mutable objects: two
  names may refer to the same list, and \<^verbatim>\<open>+=\<close> extends a list in place. Lists therefore
  live in a store, at addresses, and the registry holds the addresses. An event or
  exception dict maps its key to the address of the list of handlers; exception classes
  are named by strings. A coroutine function is named by a string too.
\<close>

type_synonym addr = nat

type_synonym coro = string

text \<open>
  Modelled from the spec: the class \<^verbatim>\<open>MessageHandlerItem\<close> of the module
  \<^verbatim>\<open>messageHandlerDefine\<close>, which is not among the sources. It is the handler descriptor
  of the spec: the callback, the fields that the constructor call in \<^verbatim>\<open>on_message\<close>
  names, and the two predicates \<^verbatim>\<open>keywords\<close> (here \<open>item_keywords\<close>) and
  \<open>custom_verify\<close>, which the constructor call does not pass and which are \<^verbatim>\<open>None\<close>
  until they are assigned. The keywords are any value (\<open>JNull\<close> for \<^verbatim>\<open>None\<close>).
\<close>

record MessageHandlerItem =
  func :: coro
  item_group_config :: addr
  level :: int
  group_id :: string
  direct_only :: bool
  allow_direct :: "bool option"
  check_prefix :: json
  item_prefix_keywords :: addr
  item_keywords :: json
  custom_verify :: "coro option"

datatype obj =
    Keyword string
  | Item MessageHandlerItem
  | Func coro

text \<open>The store: the list objects, and the dicts of the group configuration managers
  (group id to configuration).\<close>

record 'g store =
  lists :: "addr \<Rightarrow> obj list"
  configs :: "addr \<Rightarrow> (string \<times> 'g) list"

record BotHandlerFactory =
  prefix_keywords :: addr
  group_config :: addr
  event_handlers :: "(string \<times> addr) list"
  message_handlers :: addr
  exception_handlers :: "(string \<times> addr) list"
  after_reply_handlers :: addr
  before_reply_handlers :: addr
  message_handler_middleware :: addr

subsection \<open>Registration of a message handler\<close>

text \<open>\<^verbatim>\<open>str(group_id)\<close>, for a group id that is a string or \<^verbatim>\<open>None\<close>.\<close>

definition str_group_id :: "string option \<Rightarrow> string" where
  "str_group_id g = (case g of None \<Rightarrow> ''None'' | Some name \<Rightarrow> name)"

text \<open>The local \<^verbatim>\<open>_handler\<close> of \<^verbatim>\<open>register\<close>: the descriptor is built, then exactly one
  of its two predicates is assigned, the custom check when \<open>verify\<close> is given.\<close>

definition new_handler ::
    "string option \<Rightarrow> json \<Rightarrow> coro option \<Rightarrow> json \<Rightarrow> bool option \<Rightarrow> bool \<Rightarrow> int \<Rightarrow>
     BotHandlerFactory \<Rightarrow> coro \<Rightarrow> MessageHandlerItem" where
  "new_handler gid kws verify prefix direct only lvl self f =
     (let handler =
            \<lparr>func = f, item_group_config = group_config self, level = lvl,
             group_id = str_group_id gid, direct_only = only, allow_direct = direct,
             check_prefix = prefix, item_prefix_keywords = prefix_keywords self,
             item_keywords = JNull, custom_verify = None\<rparr>
      in if verify \<noteq> None then handler\<lparr>custom_verify := verify\<rparr>
         else handler\<lparr>item_keywords := kws\<rparr>)"

text \<open>\<^verbatim>\<open>list.append\<close> on the list at an address.\<close>

definition list_append :: "addr \<Rightarrow> obj \<Rightarrow> 'g store \<Rightarrow> 'g store" where
  "list_append a x h = h\<lparr>lists := (lists h)(a := lists h a @ [x])\<rparr>"

text \<open>\<^verbatim>\<open>on_message(...)(func)\<close>: the decorator applied to the function \<open>f\<close>.\<close>

definition on_message ::
    "string option \<Rightarrow> json \<Rightarrow> coro option \<Rightarrow> json \<Rightarrow> bool option \<Rightarrow> bool \<Rightarrow> int \<Rightarrow>
     BotHandlerFactory \<Rightarrow> coro \<Rightarrow> 'g store \<Rightarrow> 'g store" where
  "on_message gid kws verify prefix direct only lvl self f h =
     list_append (message_handlers self)
       (Item (new_handler gid kws verify prefix direct only lvl self f)) h"

text \<open>A predicate of a descriptor is active when its field is not \<^verbatim>\<open>None\<close>.\<close>

definition keywords_active :: "MessageHandlerItem \<Rightarrow> bool" where
  "keywords_active item = (item_keywords item \<noteq> JNull)"

definition verify_active :: "MessageHandlerItem \<Rightarrow> bool" where
  "verify_active item = (custom_verify item \<noteq> None)"

text \<open>A registry with the list addresses 0 to 4, the configuration at 5 and no event or
  exception handlers, and an empty store.\<close>

definition plain_factory :: "BotHandlerFactory" where
  "plain_factory =
     \<lparr>prefix_keywords = 0, group_config = 5, event_handlers = [], message_handlers = 1,
      exception_handlers = [], after_reply_handlers = 2, before_reply_handlers = 3,
      message_handler_middleware = 4\<rparr>"

definition empty_store :: "unit store" where
  "empty_store = \<lparr>lists = (\<lambda>a. []), configs = (\<lambda>a. [])\<rparr>"

subsection \<open>Composition of registries\<close>

text \<open>\<^verbatim>\<open>a += b\<close> on lists: the list at \<open>a\<close> is extended in place by the elements of the
  list at \<open>b\<close>, which may be the same list.\<close>

definition iadd :: "addr \<Rightarrow> addr \<Rightarrow> 'g store \<Rightarrow> 'g store" where
  "iadd a b h = h\<lparr>lists := (lists h)(a := lists h a @ lists h b)\<rparr>"

text \<open>\<^verbatim>\<open>target.group_config.config.update(parent.group_config.config)\<close>.\<close>

definition update_config :: "addr \<Rightarrow> addr \<Rightarrow> 'g store \<Rightarrow> 'g store" where
  "update_config a b h = h\<lparr>configs := (configs h)(a := dict_update (configs h a) (configs h b))\<rparr>"

text \<open>
  The loop over one of the two dicts: a key of the parent that the target lacks is
  assigned the parent's list itself (the same object), and the list of a key that the
  target has is extended in place.
\<close>

fun combine_dict ::
    "(string \<times> addr) list \<Rightarrow> (string \<times> addr) list \<Rightarrow> 'g store \<Rightarrow> (string \<times> addr) list \<times> 'g store" where
  "combine_dict tgt [] h = (tgt, h)"
| "combine_dict tgt ((e, b) # rest) h =
     (case map_of tgt e of
        None \<Rightarrow> combine_dict (tgt @ [(e, b)]) rest h
      | Some a \<Rightarrow> combine_dict tgt rest (iadd a b h))"

definition combine_factory ::
    "BotHandlerFactory \<Rightarrow> BotHandlerFactory \<Rightarrow> 'g store \<Rightarrow> BotHandlerFactory \<times> 'g store" where
  "combine_factory target parent h =
     (let h1 = iadd (prefix_keywords target) (prefix_keywords parent) h;
          h2 = iadd (message_handlers target) (message_handlers parent) h1;
          h3 = iadd (after_reply_handlers target) (after_reply_handlers parent) h2;
          h4 = iadd (before_reply_handlers target) (before_reply_handlers parent) h3;
          h5 = iadd (message_handler_middleware target) (message_handler_middleware parent) h4;
          h6 = update_config (group_config target) (group_config parent) h5
      in case combine_dict (event_handlers target) (event_handlers parent) h6 of
           (ev, h7) \<Rightarrow>
             (case combine_dict (exception_handlers target) (exception_handlers parent) h7 of
                (ex, h8) \<Rightarrow> (target\<lparr>event_handlers := ev, exception_handlers := ex\<rparr>, h8)))"

text \<open>The handlers that a dict holds for a key: none for a key that is absent.\<close>

definition handlers_of :: "'g store \<Rightarrow> (string \<times> addr) list \<Rightarrow> string \<Rightarrow> obj list" where
  "handlers_of h dict k = (case map_of dict k of None \<Rightarrow> [] | Some a \<Rightarrow> lists h a)"

text \<open>
  The places of a registry that hold a list: the five sequences and the keys of the
  two dicts, in the order in which \<^verbatim>\<open>combine_factory\<close> goes through them.
\<close>

datatype slot =
    PrefixKeywords
  | MessageHandlers
  | AfterReply
  | BeforeReply
  | Middleware
  | EventHandlers string
  | ExceptionHandlers string

definition slots :: "BotHandlerFactory \<Rightarrow> (slot \<times> addr) list" where
  "slots r =
     [(PrefixKeywords, prefix_keywords r), (MessageHandlers, message_handlers r),
      (AfterReply, after_reply_handlers r), (BeforeReply, before_reply_handlers r),
      (Middleware, message_handler_middleware r)]
     @ map (\<lambda>kv. (EventHandlers (fst kv), snd kv)) (event_handlers r)
     @ map (\<lambda>kv. (ExceptionHandlers (fst kv), snd kv)) (exception_handlers r)"

fun slot_addr :: "BotHandlerFactory \<Rightarrow> slot \<Rightarrow> addr option" where
  "slot_addr r PrefixKeywords = Some (prefix_keywords r)"
| "slot_addr r MessageHandlers = Some (message_handlers r)"
| "slot_addr r AfterReply = Some (after_reply_handlers r)"
| "slot_addr r BeforeReply = Some (before_reply_handlers r)"
| "slot_addr r Middleware = Some (message_handler_middleware r)"
| "slot_addr r (EventHandlers k) = map_of (event_handlers r) k"
| "slot_addr r (ExceptionHandlers k) = map_of (exception_handlers r) k"

text \<open>The entries that a registry holds at a place.\<close>

definition entries :: "'g store \<Rightarrow> BotHandlerFactory \<Rightarrow> slot \<Rightarrow> obj list" where
  "entries h r sl = (case slot_addr r sl of None \<Rightarrow> [] | Some a \<Rightarrow> lists h a)"

text \<open>
  A registry is well formed when each key occurs once in each dict and no list object
  sits at two places of it. Two registries are compatible when a list object that both
  hold sits at the same place in both; they are apart when they share no list object.
  Registries built by the registration functions and by \<^verbatim>\<open>combine_factory\<close> are of this
  kind: each list is created for one place, and composition hands a list over under
  the key it had.
\<close>

definition separate :: "BotHandlerFactory \<Rightarrow> bool" where
  "separate r = (distinct (map fst (slots r)) \<and> distinct (map snd (slots r)))"

definition compatible :: "BotHandlerFactory \<Rightarrow> BotHandlerFactory \<Rightarrow> bool" where
  "compatible t r =
     list_all (\<lambda>ta. list_all (\<lambda>rb. snd ta = snd rb \<longrightarrow> fst ta = fst rb) (slots r)) (slots t)"

definition apart :: "BotHandlerFactory \<Rightarrow> BotHandlerFactory \<Rightarrow> bool" where
  "apart t r = list_all (\<lambda>ta. list_all (\<lambda>rb. snd ta \<noteq> snd rb) (slots r)) (slots t)"

text \<open>The in-place extensions that a composition performs, as pairs of the list
  extended and the list read, and a store after a list of such extensions.\<close>

definition plan :: "(slot \<Rightarrow> addr option) \<Rightarrow> (slot \<times> addr) list \<Rightarrow> (addr \<times> addr) list" where
  "plan m ss = concat (map (\<lambda>sb. case m (fst sb) of None \<Rightarrow> [] | Some a \<Rightarrow> [(a, snd sb)]) ss)"

fun iadd_all :: "(addr \<times> addr) list \<Rightarrow> 'g store \<Rightarrow> 'g store" where
  "iadd_all [] h = h"
| "iadd_all ((a, b) # ps) h = iadd_all ps (iadd a b h)"

text \<open>No list of the plan is extended twice, nor read after it was extended.\<close>

fun plan_ok :: "(addr \<times> addr) list \<Rightarrow> bool" where
  "plan_ok [] = True"
| "plan_ok ((a, b) # ps) = (a \<notin> fst ` set ps \<and> a \<notin> snd ` set ps \<and> plan_ok ps)"

text \<open>A bot and a plugin that share nothing: the bot has handlers for the event
  \<open>open\<close>, the plugin for the events \<open>open\<close> and \<open>shut\<close> and for one exception.\<close>

definition bot_factory :: "BotHandlerFactory" where
  "bot_factory =
     \<lparr>prefix_keywords = 0, group_config = 5, event_handlers = [(''open'', 6)],
      message_handlers = 1, exception_handlers = [], after_reply_handlers = 2,
      before_reply_handlers = 3, message_handler_middleware = 4\<rparr>"

definition plugin_factory :: "BotHandlerFactory" where
  "plugin_factory =
     \<lparr>prefix_keywords = 10, group_config = 15, event_handlers = [(''open'', 16), (''shut'', 17)],
      message_handlers = 11, exception_handlers = [(''ValueError'', 18)],
      after_reply_handlers = 12, before_reply_handlers = 13, message_handler_middleware = 14\<rparr>"

text \<open>A copy of the bot, with list objects of its own.\<close>

definition bot_copy :: "BotHandlerFactory" where
  "bot_copy =
     \<lparr>prefix_keywords = 20, group_config = 25, event_handlers = [(''open'', 26)],
      message_handlers = 21, exception_handlers = [], after_reply_handlers = 22,
      before_reply_handlers = 23, message_handler_middleware = 24\<rparr>"

definition plugin_store :: "unit store" where
  "plugin_store =
     \<lparr>lists = (\<lambda>a. []) (0 := [Keyword ''amiya''], 6 := [Func ''bot_open''],
               10 := [Keyword ''plugin''], 16 := [Func ''plugin_open''],
               17 := [Func ''plugin_shut_1'', Func ''plugin_shut_2''],
               18 := [Func ''plugin_error''],
               20 := [Keyword ''amiya''], 26 := [Func ''bot_open'']),
      configs = (\<lambda>a. [])\<rparr>"

section \<open>The Tencent message adapter\<close>

text \<open>
  Modelled from the spec: the classes \<^verbatim>\<open>Message\<close> and \<^verbatim>\<open>Event\<close> of the module
  \<^verbatim>\<open>amiyabot.builtin.message\<close>, which is not among the sources. A message is the
  canonical message of the spec: identity, content and flags, with the attributes that
  \<^verbatim>\<open>package_tencent_message\<close> and \<^verbatim>\<open>get_info\<close> assign. A new message has empty lists
  and no flag set. \<open>images\<close> is the attribute \<^verbatim>\<open>image\<close> and \<open>msg_text\<close> the text that
  \<^verbatim>\<open>text_convert\<close> stores. An event wraps the event name and the raw payload.
\<close>

record Message =
  message_id :: json
  user_id :: json
  guild_id :: json
  src_guild_id :: json
  channel_id :: json
  nickname :: json
  avatar :: json
  is_direct :: json
  is_admin :: bool
  is_at :: bool
  images :: "string list"
  face :: "string list"
  at_target :: "json list"
  msg_text :: string

definition new_message :: "Message" where
  "new_message =
     \<lparr>message_id = JNull, user_id = JNull, guild_id = JNull, src_guild_id = JNull,
      channel_id = JNull, nickname = JNull, avatar = JNull, is_direct = JBool False,
      is_admin = False, is_at = False, images = [], face = [], at_target = [],
      msg_text = []\<rparr>"

datatype packaged =
    Msg Message
  | Event string json

text \<open>
  What the adapter takes from outside: the three calls of the platform API that the
  function awaits (\<open>JNull\<close> stands for \<^verbatim>\<open>None\<close>), the function \<^verbatim>\<open>text_convert\<close> of the
  module \<^verbatim>\<open>adapters.common\<close>, and Python's conversion of a value to a string, which
  \<^verbatim>\<open>str.format\<close> applies to the id of a mentioned user.
\<close>

record TencentAPI =
  get_me :: json
  get_channel :: "json \<Rightarrow> json"
  get_message :: "json \<Rightarrow> json \<Rightarrow> json"
  text_convert :: "Message \<Rightarrow> string \<Rightarrow> json \<Rightarrow> Message"
  str_of :: "json \<Rightarrow> string"

text \<open>Sequencing of steps that may raise.\<close>

definition and_then :: "exn + 'a \<Rightarrow> ('a \<Rightarrow> exn + 'b) \<Rightarrow> exn + 'b" where
  "and_then r f = (case r of Inl e \<Rightarrow> Inl e | Inr x \<Rightarrow> f x)"

subsection \<open>Strings\<close>

text \<open>\<^verbatim>\<open>text.replace(old, '')\<close>: the occurrences of \<open>old\<close> are removed from left to
  right; \<open>skip\<close> counts the characters of an occurrence still to drop.\<close>

fun remove_all :: "string \<Rightarrow> nat \<Rightarrow> string \<Rightarrow> string" where
  "remove_all old skip [] = []"
| "remove_all old (Suc k) (c # cs) = remove_all old k cs"
| "remove_all old 0 (c # cs) =
     (if old \<noteq> [] \<and> starts_with (c # cs) old then remove_all old (length old - 1) cs
      else c # remove_all old 0 cs)"

definition is_space :: "char \<Rightarrow> bool" where
  "is_space c = (c \<in> set [CHR '' '', CHR 0x09, CHR 0x0A, CHR 0x0B, CHR 0x0C, CHR 0x0D])"

text \<open>\<^verbatim>\<open>text.strip()\<close>.\<close>

definition strip :: "string \<Rightarrow> string" where
  "strip t = rev (dropWhile is_space (rev (dropWhile is_space t)))"

definition is_digit :: "char \<Rightarrow> bool" where
  "is_digit c = (c \<in> set ''0123456789'')"

text \<open>A match of \<^verbatim>\<open><emoji:(\d+)>\<close> at the start of a text: the digits.\<close>

definition match_emoji :: "string \<Rightarrow> string option" where
  "match_emoji t =
     (if starts_with t ''<emoji:''
      then (let ds = takeWhile is_digit (drop 7 t); rest = dropWhile is_digit (drop 7 t)
            in if ds \<noteq> [] \<and> starts_with rest ''>'' then Some ds else None)
      else None)"

text \<open>\<^verbatim>\<open>re.findall(r'<emoji:(\d+)>', text)\<close>: the matches from left to right, without
  overlap.\<close>

fun findall_emoji :: "nat \<Rightarrow> string \<Rightarrow> string list" where
  "findall_emoji skip [] = []"
| "findall_emoji (Suc k) (c # cs) = findall_emoji k cs"
| "findall_emoji 0 (c # cs) =
     (case match_emoji (c # cs) of
        None \<Rightarrow> findall_emoji 0 cs
      | Some ds \<Rightarrow> ds # findall_emoji (length ds + 7) cs)"

subsection \<open>The steps of the packaging\<close>

definition message_created :: "string list" where
  "message_created = [''MESSAGE_CREATE'', ''AT_MESSAGE_CREATE'', ''DIRECT_MESSAGE_CREATE'']"

definition ADMIN :: "json list" where
  "ADMIN = [JStr ''2'', JStr ''4'', JStr ''5'']"

text \<open>The test of line 14:
  \<^verbatim>\<open>'bot' in message['author'] and message['author']['bot'] and not is_reference\<close>.\<close>

definition suppressed :: "json \<Rightarrow> bool \<Rightarrow> exn + bool" where
  "suppressed message is_reference =
     and_then (getitem message ''author'') (\<lambda>author.
     and_then (py_in ''bot'' author) (\<lambda>has_bot.
       if \<not> has_bot then Inr False
       else and_then (getitem author ''bot'') (\<lambda>marked.
              Inr (truthy marked \<and> \<not> is_reference))))"

definition get_info :: "Message \<Rightarrow> json \<Rightarrow> exn + Message" where
  "get_info obj message =
     and_then (getitem message ''author'') (\<lambda>author.
     and_then (getitem message ''id'') (\<lambda>mid.
     and_then (getitem author ''id'') (\<lambda>uid.
     and_then (getitem message ''guild_id'') (\<lambda>gid.
     and_then (py_in ''src_guild_id'' message) (\<lambda>has_src.
     and_then (getitem message (if has_src then ''src_guild_id'' else ''guild_id'')) (\<lambda>src.
     and_then (getitem message ''channel_id'') (\<lambda>cid.
     and_then (getitem author ''username'') (\<lambda>name.
     and_then (py_in ''avatar'' author) (\<lambda>has_avatar.
     and_then (if has_avatar then getitem author ''avatar'' else Inr JNull) (\<lambda>av.
       Inr (obj\<lparr>message_id := mid, user_id := uid, guild_id := gid, src_guild_id := src,
                channel_id := cid, nickname := name, avatar := av\<rparr>)))))))))))"

text \<open>\<^verbatim>\<open>'direct_message' in message and message['direct_message']\<close>.\<close>

definition direct_flag :: "json \<Rightarrow> exn + json" where
  "direct_flag message =
     and_then (py_in ''direct_message'' message) (\<lambda>has.
       if has then getitem message ''direct_message'' else Inr (JBool False))"

text \<open>The block \<^verbatim>\<open>if 'member' in message\<close>.\<close>

definition admin_flag :: "json \<Rightarrow> Message \<Rightarrow> exn + Message" where
  "admin_flag message data =
     and_then (py_in ''member'' message) (\<lambda>has_member.
       if \<not> has_member then Inr data
       else
         and_then (getitem message ''member'') (\<lambda>member.
         and_then (py_in ''roles'' member) (\<lambda>has_roles.
           if \<not> has_roles then Inr data
           else
             and_then (getitem member ''roles'') (\<lambda>roles.
             and_then (py_iter roles) (\<lambda>ns.
               if filter (\<lambda>n. List.member ADMIN n) ns \<noteq> [] then Inr (data\<lparr>is_admin := True\<rparr>)
               else Inr data)))))"

text \<open>The loop over the attachments.\<close>

fun add_attachments :: "json list \<Rightarrow> Message \<Rightarrow> exn + Message" where
  "add_attachments [] data = Inr data"
| "add_attachments (item # items) data =
     and_then (getitem item ''url'') (\<lambda>url.
       case url of
         JStr u \<Rightarrow> add_attachments items (data\<lparr>images := images data @ [''http://'' @ u]\<rparr>)
       | _ \<Rightarrow> Inl TypeError)"

definition attachments :: "json \<Rightarrow> Message \<Rightarrow> exn + Message" where
  "attachments message data =
     and_then (py_in ''attachments'' message) (\<lambda>has.
       if \<not> has then Inr data
       else
         and_then (getitem message ''attachments'') (\<lambda>atts.
         and_then (py_iter atts) (\<lambda>items. add_attachments items data)))"

text \<open>The tag \<^verbatim>\<open>'<@!{id}>'.format(**user)\<close>: the user has to be a dict with the key
  \<open>id\<close>.\<close>

definition mention_tag :: "TencentAPI \<Rightarrow> json \<Rightarrow> exn + string" where
  "mention_tag api user =
     (case user of
        JDict kvs \<Rightarrow>
          (case map_of kvs ''id'' of
             None \<Rightarrow> Inl (KeyError ''id'')
           | Some uid \<Rightarrow> Inr (''<@!'' @ str_of api uid @ ''>''))
      | _ \<Rightarrow> Inl TypeError)"

text \<open>The loop over the mentions: the tag of each user is removed from the text; the
  bot itself sets \<open>is_at\<close>, other bots are skipped, the others are targets.\<close>

fun strip_mentions :: "TencentAPI \<Rightarrow> json list \<Rightarrow> string \<Rightarrow> Message \<Rightarrow> exn + string \<times> Message" where
  "strip_mentions api [] txt data = Inr (txt, data)"
| "strip_mentions api (user # users) txt data =
     and_then (mention_tag api user) (\<lambda>tag.
     and_then (getitem user ''id'') (\<lambda>uid.
     and_then (if truthy (get_me api)
               then and_then (getitem (get_me api) ''id'') (\<lambda>bid. Inr (uid = bid))
               else Inr False) (\<lambda>is_me.
       if is_me then strip_mentions api users (remove_all tag 0 txt) (data\<lparr>is_at := True\<rparr>)
       else
         and_then (getitem user ''bot'') (\<lambda>marked.
           if truthy marked then strip_mentions api users (remove_all tag 0 txt) data
           else strip_mentions api users (remove_all tag 0 txt)
                  (data\<lparr>at_target := at_target data @ [uid]\<rparr>)))))"

text \<open>The block \<^verbatim>\<open>if 'content' in message\<close>. A content that is not a string has no
  method \<^verbatim>\<open>replace\<close> and is no subject for \<^verbatim>\<open>re.findall\<close>.\<close>

definition content_text :: "TencentAPI \<Rightarrow> json \<Rightarrow> Message \<Rightarrow> exn + Message" where
  "content_text api message data =
     and_then (py_in ''content'' message) (\<lambda>has.
       if \<not> has then Inr data
       else
         and_then (getitem message ''content'') (\<lambda>content.
         and_then (py_in ''mentions'' message) (\<lambda>has_mentions.
         and_then (if has_mentions then getitem message ''mentions'' else Inr JNull) (\<lambda>mentions.
         and_then (if truthy mentions then py_iter mentions else Inr []) (\<lambda>users.
         and_then
           (case content of
              JStr txt \<Rightarrow> strip_mentions api users txt data
            | _ \<Rightarrow> if users = [] then Inl TypeError else Inl AttributeError) (\<lambda>r.
           Inr (text_convert api
                  ((snd r)\<lparr>face := face (snd r) @ findall_emoji 0 (fst r)\<rparr>)
                  (strip (fst r)) content)))))))"

text \<open>The message that the payload quotes, if any: what \<^verbatim>\<open>get_message\<close> gives for the
  reference, when it is truthy.\<close>

definition referenced :: "TencentAPI \<Rightarrow> json \<Rightarrow> exn + json option" where
  "referenced api message =
     and_then (py_in ''message_reference'' message) (\<lambda>has.
       if \<not> has then Inr None
       else
         and_then (getitem message ''channel_id'') (\<lambda>cid.
         and_then (getitem message ''message_reference'') (\<lambda>mr.
         and_then (getitem mr ''message_id'') (\<lambda>mid.
           if truthy (get_message api cid mid)
           then and_then (getitem (get_message api cid mid) ''message'') (\<lambda>m. Inr (Some m))
           else Inr None))))"

text \<open>
  Lines 17 to 59, the packaging of a message up to the quoted message: an exception,
  \<^verbatim>\<open>None\<close> for a channel that is gone, or the message with the payload of the message it
  quotes.
\<close>

definition package_created :: "TencentAPI \<Rightarrow> json \<Rightarrow> exn + (Message \<times> json option) option" where
  "package_created api message =
     and_then (get_info new_message message) (\<lambda>data0.
     and_then (direct_flag message) (\<lambda>direct.
       let data1 = data0\<lparr>is_direct := direct\<rparr>
       in if \<not> truthy direct \<and> \<not> truthy (get_channel api (channel_id data1)) then Inr None
          else
            and_then (admin_flag message data1) (\<lambda>data2.
            and_then (attachments message data2) (\<lambda>data3.
            and_then (content_text api message data3) (\<lambda>data4.
            and_then (referenced api message) (\<lambda>quoted.
              Inr (Some (data4, quoted))))))))"

text \<open>
  \<^verbatim>\<open>package_tencent_message\<close>. The function calls itself on the message quoted, one call
  per depth of quotation; \<open>fuel\<close> bounds the depth, and the result is \<open>None\<close> when the
  fuel runs out. Otherwise it is an exception or what the function returns, where the
  inner \<open>None\<close> is Python's \<^verbatim>\<open>None\<close>.
\<close>

fun package_tencent_message ::
    "nat \<Rightarrow> TencentAPI \<Rightarrow> string \<Rightarrow> json \<Rightarrow> bool \<Rightarrow> (exn + packaged option) option" where
  "package_tencent_message 0 api event message is_reference = None"
| "package_tencent_message (Suc fuel) api event message is_reference =
     (if List.member message_created event
      then
        (case suppressed message is_reference of
           Inl e \<Rightarrow> Some (Inl e)
         | Inr True \<Rightarrow> Some (Inr None)
         | Inr False \<Rightarrow>
             (case package_created api message of
                Inl e \<Rightarrow> Some (Inl e)
              | Inr None \<Rightarrow> Some (Inr None)
              | Inr (Some (data, None)) \<Rightarrow> Some (Inr (Some (Msg data)))
              | Inr (Some (data, Some quoted)) \<Rightarrow>
                  (case package_tencent_message fuel api event quoted True of
                     None \<Rightarrow> None
                   | Some (Inl e) \<Rightarrow> Some (Inl e)
                   | Some (Inr None) \<Rightarrow> Some (Inr (Some (Msg data)))
                   | Some (Inr (Some (Msg quoted_data))) \<Rightarrow>
                       Some (Inr (Some (Msg (data\<lparr>images := images data @ images quoted_data\<rparr>))))
                   | Some (Inr (Some (Event name payload))) \<Rightarrow> Some (Inl AttributeError))))
      else Some (Inr (Some (Event event message))))"

text \<open>The author of the payload is marked as a bot: the payload has an author that
  has a truthy entry \<open>bot\<close>.\<close>

definition bot_author :: "json \<Rightarrow> bool" where
  "bot_author message =
     (case getitem message ''author'' of
        Inl e \<Rightarrow> False
      | Inr author \<Rightarrow>
          (case getitem author ''bot'' of Inl e \<Rightarrow> False | Inr marked \<Rightarrow> truthy marked))"

text \<open>The same payload from an author that is not marked: the entry \<open>bot\<close> of the
  author is taken away.\<close>

definition unmarked :: "json \<Rightarrow> json" where
  "unmarked message =
     (case message of
        JDict kvs \<Rightarrow>
          (case map_of kvs ''author'' of
             Some (JDict author) \<Rightarrow>
               JDict (dict_set ''author'' (JDict (filter (\<lambda>kv. fst kv \<noteq> ''bot'') author)) kvs)
           | _ \<Rightarrow> message)
      | _ \<Rightarrow> message)"

text \<open>An API without answers, and payloads of a bot and of a user in a direct
  message; the message of the user quotes a message, which the API below resolves to
  the message of the bot.\<close>

definition silent_api :: "TencentAPI" where
  "silent_api =
     \<lparr>get_me = JNull, get_channel = (\<lambda>c. JNull), get_message = (\<lambda>c m. JNull),
      text_convert = (\<lambda>data txt original. data\<lparr>msg_text := txt\<rparr>),
      str_of = (\<lambda>v. case v of JStr t \<Rightarrow> t | _ \<Rightarrow> [])\<rparr>"

definition bot_payload :: "json" where
  "bot_payload =
     JDict [(''id'', JStr ''m1''), (''guild_id'', JStr ''g''), (''channel_id'', JStr ''c''),
            (''author'', JDict [(''id'', JStr ''u1''), (''username'', JStr ''helper''),
                                (''bot'', JBool True)]),
            (''direct_message'', JBool True),
            (''attachments'', JList [JDict [(''url'', JStr ''cdn/a.png'')]])]"

definition user_payload :: "json" where
  "user_payload =
     JDict [(''id'', JStr ''m2''), (''guild_id'', JStr ''g''), (''channel_id'', JStr ''c''),
            (''author'', JDict [(''id'', JStr ''u2''), (''username'', JStr ''someone'')]),
            (''direct_message'', JBool True),
            (''content'', JStr '' hello <emoji:12> ''),
            (''message_reference'', JDict [(''message_id'', JStr ''m1'')])]"

definition quoting_api :: "TencentAPI" where
  "quoting_api =
     silent_api\<lparr>get_message := (\<lambda>c m. JDict [(''message'', bot_payload)])\<rparr>"

section \<open>Properties of the gateway session\<close>

subsection \<open>The stored sequence number\<close>

text \<open>
  Claim C1, as the code has it: for every inbound frame whose \<open>sn\<close> field is not null,
  the stored \<open>last_sn\<close> after the frame is processed equals that \<open>sn\<close>, whatever the
  opcode and whether or not the value is smaller than the one held, with one exception:
  a hello frame (opcode 1) whose status code is not 0 resets \<open>last_sn\<close> to 0 before the
  read loop raises. The statement covers the runs that end in an exception too.
\<close>

theorem last_sn_after_frame:
  "sn p = Some n \<Longrightarrow>
   last_sn (snd (process_frame p st)) = (if handshake_failed p then 0 else n)"
  by (auto simp: process_frame_def on_hello_def handshake_failed_def send_def
        close_connection_def Let_def
      split: sum.splits option.splits prod.splits if_splits)

text \<open>The theorem at a dispatch frame with the sequence number 5, on a session that holds
  42: the smaller number is stored.\<close>

theorem last_sn_after_frame_witness:
  "sn (bare_frame 0 (Some 5)) = Some 5 \<and>
   \<not> handshake_failed (bare_frame 0 (Some 5)) \<and>
   last_sn (snd (process_frame (bare_frame 0 (Some 5)) (session_holding 42 []))) = 5"
  using last_sn_after_frame [of "bare_frame 0 (Some 5)" 5 "session_holding 42 []"]
  by (simp add: bare_frame_def handshake_failed_def)

text \<open>Claim C1 as stated fails: a rejected handshake that carries the sequence number 7
  leaves 0 in \<open>last_sn\<close>.\<close>

theorem last_sn_rejected_handshake:
  "sn (rejected_frame (Some 7)) = Some 7 \<and>
   last_sn (snd (process_frame (rejected_frame (Some 7)) (session_holding 42 []))) = 0 \<and>
   fst (process_frame (rejected_frame (Some 7)) (session_holding 42 [])) = Some ManualCloseException"
  by (simp add: rejected_frame_def session_holding_def process_frame_def on_hello_def)

subsection \<open>The resume request\<close>

lemma read_loop_waiting: "read_loop evs st = (Waiting, st') \<Longrightarrow> still_alive st'"
proof (induction evs arbitrary: st)
  case Nil
  then show ?case by (simp split: if_splits)
next
  case (Cons ev evs)
  then show ?case
    by (cases ev) (auto split: if_splits prod.splits option.splits)
qed

lemma read_loop_lost:
  "read_loop evs st = (Waiting, st') \<Longrightarrow>
   read_loop (evs @ [Closed]) st = (Raised ConnectionClosed, st') \<and>
   read_loop (evs @ [Undecodable]) st = (Raised JSONDecodeError, st')"
proof (induction evs arbitrary: st)
  case Nil
  then show ?case by (simp split: if_splits)
next
  case (Cons ev evs)
  then show ?case
    by (cases ev) (auto split: if_splits prod.splits option.splits)
qed

lemma resume_single_frame:
  "handshake_ok p \<Longrightarrow> connection st \<Longrightarrow>
   fst (process_frame p st) = None \<and>
   connection (snd (process_frame p st)) \<and>
   keep_run (snd (process_frame p st)) = keep_run st \<and>
   sent (snd (process_frame p st)) =
     sent st @ (let n = (case sn p of None \<Rightarrow> last_sn st | Some m \<Rightarrow> m)
                in if n \<noteq> 0 then [resume_request n] else [])"
  by (auto simp: process_frame_def on_hello_def handshake_ok_def send_def
        close_connection_def Let_def resume_request_def
      split: sum.splits option.splits prod.splits if_splits)

lemma request_gateway_fields:
  "last_sn (snd (request_gateway gw st)) = last_sn st"
  "sent (snd (request_gateway gw st)) = sent st"
  "keep_run (snd (request_gateway gw st)) = keep_run st"
  "connection (snd (request_gateway gw st)) = connection st"
  by (auto simp: request_gateway_def split: sum.splits option.splits)

lemma private_connect_hello:
  assumes g: "fst (request_gateway gw st) = None" and k: "keep_run st"
    and p: "handshake_ok p" "sn p = None"
  shows "sent (snd (private_connect gw [Frame p] st)) =
           sent st @ (if last_sn st \<noteq> 0 then [resume_request (last_sn st)] else [])"
proof -
  obtain st1 where r: "request_gateway gw st = (None, st1)"
    using g by (cases "request_gateway gw st") auto
  have f: "last_sn st1 = last_sn st" "sent st1 = sent st" "keep_run st1 = keep_run st"
    using request_gateway_fields [of gw st] r by simp_all
  let ?o = "st1\<lparr>connection := True\<rparr>"
  have c: "connection ?o" by simp
  note s = resume_single_frame [OF p(1) c]
  obtain st2 where pf: "process_frame p ?o = (None, st2)"
    using s by (cases "process_frame p ?o") auto
  have "sent st2 = sent st @ (if last_sn st \<noteq> 0 then [resume_request (last_sn st)] else [])"
    using s pf p(2) f by (simp add: Let_def)
  moreover have "sent (snd (private_connect gw [Frame p] st)) = sent st2"
    using r pf k f by (simp add: private_connect_def still_alive_def close_connection_def split: if_splits)
  ultimately show ?thesis by simp
qed

text \<open>
  Claim C2, as the code has it: the resume request (opcode 4) written after a handshake
  that succeeded carries the sequence number stored at that point, which is the \<open>sn\<close> of
  the hello frame when it has one and otherwise the number held from before. When that
  number is 0, as after an invalidation has reset it, no resume request is written at
  all; a resume request never carries 0. The number held survives a connection that
  is lost: when a connection attempt whose read loop was waiting, holding a number, ends
  because \<^verbatim>\<open>recv\<close> fails, the \<^verbatim>\<open>finally\<close> clause keeps the number, and in the next
  attempt a hello frame without a sequence field is answered by the resume request
  that carries it.
\<close>

theorem resume_after_handshake:
  "(handshake_ok p \<and> connection st \<longrightarrow>
      sent (snd (process_frame p st)) =
        sent st @ (let n = (case sn p of None \<Rightarrow> last_sn st | Some m \<Rightarrow> m)
                   in if n \<noteq> 0 then [resume_request n] else [])) \<and>
   (fst (request_gateway gw st) = None \<and>
    read_loop evs ((snd (request_gateway gw st))\<lparr>connection := True\<rparr>) = (Waiting, held) \<and>
    (lost = Closed \<or> lost = Undecodable) \<and>
    fst (request_gateway gw' (close_connection held)) = None \<and>
    handshake_ok p \<and> sn p = None \<longrightarrow>
      snd (private_connect gw (evs @ [lost]) st) = close_connection held \<and>
      last_sn (snd (private_connect gw (evs @ [lost]) st)) = last_sn held \<and>
      sent (snd (private_connect gw' [Frame p] (snd (private_connect gw (evs @ [lost]) st)))) =
        sent held @ (if last_sn held \<noteq> 0 then [resume_request (last_sn held)] else []))"
proof (intro conjI impI)
  assume "handshake_ok p \<and> connection st"
  then show "sent (snd (process_frame p st)) =
        sent st @ (let n = (case sn p of None \<Rightarrow> last_sn st | Some m \<Rightarrow> m)
                   in if n \<noteq> 0 then [resume_request n] else [])"
    using resume_single_frame [of p st] by simp
next
  assume a: "fst (request_gateway gw st) = None \<and>
    read_loop evs ((snd (request_gateway gw st))\<lparr>connection := True\<rparr>) = (Waiting, held) \<and>
    (lost = Closed \<or> lost = Undecodable) \<and>
    fst (request_gateway gw' (close_connection held)) = None \<and>
    handshake_ok p \<and> sn p = None"
  then obtain st1 where r: "request_gateway gw st = (None, st1)"
    by (cases "request_gateway gw st") auto
  from a r have w: "read_loop evs (st1\<lparr>connection := True\<rparr>) = (Waiting, held)" by simp
  have alive: "still_alive held" using w by (rule read_loop_waiting)
  have first: "snd (private_connect gw (evs @ [lost]) st) = close_connection held"
    using a r read_loop_lost [OF w] by (auto simp: private_connect_def)
  then show "snd (private_connect gw (evs @ [lost]) st) = close_connection held" .
  show "last_sn (snd (private_connect gw (evs @ [lost]) st)) = last_sn held"
    by (simp add: first close_connection_def)
  have "sent (snd (private_connect gw' [Frame p] (close_connection held))) =
      sent (close_connection held) @
        (if last_sn (close_connection held) \<noteq> 0
         then [resume_request (last_sn (close_connection held))] else [])"
    using a alive by (intro private_connect_hello) (simp_all add: still_alive_def close_connection_def)
  then show "sent (snd (private_connect gw' [Frame p] (snd (private_connect gw (evs @ [lost]) st)))) =
        sent held @ (if last_sn held \<noteq> 0 then [resume_request (last_sn held)] else [])"
    by (simp add: first close_connection_def)
qed

text \<open>The theorem on a session that holds 42: a hello frame without a sequence field
  is answered with 42; and after a dispatch frame with the number 43 the connection is
  lost, and the hello frame of the next connection is answered with 43.\<close>

theorem resume_after_handshake_witness:
  "handshake_ok (hello_frame None) \<and> connection (session_holding 42 []) \<and>
   sent (snd (process_frame (hello_frame None) (session_holding 42 []))) = [resume_request 42] \<and>
   read_loop [Frame (bare_frame 0 (Some 43))] (session_holding 42 []) =
     (Waiting, session_holding 43 [Handler ''event'' JNull Created]) \<and>
   last_sn (snd (private_connect (Inr None) [Frame (bare_frame 0 (Some 43)), Closed]
                  (session_holding 42 []))) = 43 \<and>
   sent (snd (private_connect (Inr None) [Frame (hello_frame None)]
               (snd (private_connect (Inr None) [Frame (bare_frame 0 (Some 43)), Closed]
                      (session_holding 42 []))))) = [resume_request 43]"
proof -
  let ?st = "session_holding 42 []"
  let ?held = "session_holding 43 [Handler ''event'' JNull Created]"
  have a: "handshake_ok (hello_frame None)" "sn (hello_frame None) = None"
    by (simp_all add: hello_frame_def handshake_ok_def)
  have b: "connection ?st" by (simp add: session_holding_def)
  have g: "request_gateway (Inr None) ?st = (None, ?st)"
    by (simp add: request_gateway_def session_holding_def)
  have o: "?st\<lparr>connection := True\<rparr> = ?st" by (simp add: session_holding_def)
  have w: "read_loop [Frame (bare_frame 0 (Some 43))] ?st = (Waiting, ?held)"
    by (simp add: session_holding_def still_alive_def bare_frame_def process_frame_def)
  have g': "fst (request_gateway (Inr None) (close_connection ?held)) = None"
    by (simp add: request_gateway_def session_holding_def close_connection_def)
  have v: "last_sn ?held = 43" "sent ?held = []" "sent ?st = []" "last_sn ?st = 42"
    by (simp_all add: session_holding_def)
  have p1: "fst (request_gateway (Inr None) ?st) = None" using g by simp
  have p2: "read_loop [Frame (bare_frame 0 (Some 43))]
      ((snd (request_gateway (Inr None) ?st))\<lparr>connection := True\<rparr>) = (Waiting, ?held)"
    using g o w by simp
  have p3: "Closed = Closed \<or> Closed = Undecodable" by simp
  note t = resume_after_handshake [of "hello_frame None" ?st "Inr None"
      "[Frame (bare_frame 0 (Some 43))]" ?held Closed "Inr None"]
  have c1: "sent (snd (process_frame (hello_frame None) ?st)) = [resume_request 42]"
    using t a(1) b v by (simp add: a(2))
  have c2: "last_sn (snd (private_connect (Inr None) ([Frame (bare_frame 0 (Some 43))] @ [Closed]) ?st)) =
      last_sn ?held"
    and c3: "sent (snd (private_connect (Inr None) [Frame (hello_frame None)]
        (snd (private_connect (Inr None) ([Frame (bare_frame 0 (Some 43))] @ [Closed]) ?st)))) =
      sent ?held @ (if last_sn ?held \<noteq> 0 then [resume_request (last_sn ?held)] else [])"
    using t p1 p2 p3 g' a by blast+
  from c2 v have c2': "last_sn (snd (private_connect (Inr None)
      [Frame (bare_frame 0 (Some 43)), Closed] ?st)) = 43"
    by simp
  from c3 v have c3': "sent (snd (private_connect (Inr None) [Frame (hello_frame None)]
        (snd (private_connect (Inr None) [Frame (bare_frame 0 (Some 43)), Closed] ?st)))) =
      [resume_request 43]"
    by simp
  from a(1) b c1 w c2' c3' show ?thesis by blast
qed

text \<open>
  Claim C2 as stated fails in two ways. A hello frame with a sequence field of its own
  (here 9) makes the resume request carry that number and not the 42 that was held.
  And after an invalidation (here the server asks for a reconnect, opcode 5, while 42
  is held) the next connection writes no resume request: the number held is gone.
\<close>

theorem resume_not_the_held_value:
  "sent (snd (process_frame (hello_frame (Some 9)) (session_holding 42 []))) = [resume_request 9] \<and>
   last_sn (snd (private_connect (Inr None) [Frame (bare_frame 5 None)] (session_holding 42 []))) = 0 \<and>
   sent (snd (private_connect (Inr (Some (JDict [(''data'', JDict [(''url'', JStr ''wss://gateway'')])])))
                [Frame (hello_frame None)]
                (snd (private_connect (Inr None) [Frame (bare_frame 5 None)] (session_holding 42 []))))) = []"
  by (simp add: hello_frame_def bare_frame_def session_holding_def process_frame_def on_hello_def
        send_def resume_request_def private_connect_def request_gateway_def still_alive_def
        close_connection_def)

subsection \<open>The acknowledgment flag\<close>

lemma watchdog_poll:
  "sec < 29 \<Longrightarrow> pong st = 0 \<Longrightarrow> still_alive st \<Longrightarrow>
     wait_heartbeat (Sleeping sec) st = (Sleeping (Suc sec), st)"
  "wait_heartbeat (Sleeping 29) st = (Finished, st\<lparr>connection := False, pong := 0\<rparr>)"
  by (simp_all add: wait_loop_def close_connection_def still_alive_def)

lemma pong_process_frame:
  "pong (snd (process_frame p st)) = (if s p = 3 then 1 else pong st)"
  by (auto simp: process_frame_def on_hello_def send_def close_connection_def Let_def
      split: sum.splits option.splits prod.splits if_splits)

lemma pong_heartbeat_interval: "pong (snd (heartbeat_interval c st)) = pong st"
  by (cases c) (auto simp: heartbeat_loop_def send_def split: prod.splits option.splits if_splits)

lemma pong_wait_heartbeat:
  "pong (snd (wait_heartbeat c st)) \<noteq> pong st \<Longrightarrow>
     pong (snd (wait_heartbeat c st)) = 0 \<and> c \<noteq> Finished \<and> fst (wait_heartbeat c st) = Finished"
  by (cases c) (auto simp: wait_loop_def close_connection_def split: if_splits)

lemma pong_step:
  assumes ch: "pong (step a st) \<noteq> pong st"
  shows "(pong (step a st) = 1 \<and> takes_ack a) \<or> (pong (step a st) = 0 \<and> watchdog_returns a st)"
proof (cases a)
  case (Deliver p)
  with ch show ?thesis by (auto simp: pong_process_frame takes_ack_def split: if_splits)
next
  case (Resume i)
  show ?thesis
  proof (cases "i < length (tasks st)")
    case False
    with Resume ch show ?thesis by simp
  next
    case True
    show ?thesis
    proof (cases "tasks st ! i")
      case (Handler name payload c)
      with Resume True ch show ?thesis by simp
    next
      case (HeartbeatInterval c)
      with Resume True ch pong_heartbeat_interval [of c st] show ?thesis
        by (simp split: prod.splits)
    next
      case (WaitHeartbeat c)
      with Resume True ch pong_wait_heartbeat [of c st] show ?thesis
        by (auto simp: watchdog_returns_def split: prod.splits)
    qed
  qed
next
  case Open
  with ch show ?thesis by simp
next
  case Leave
  with ch show ?thesis by (simp add: close_connection_def)
next
  case Close
  with ch show ?thesis by (simp add: close_def close_connection_def)
qed

lemma sent_process_frame:
  "sent (snd (process_frame p st)) = sent st \<or>
   (\<exists>n. sent (snd (process_frame p st)) = sent st @ [resume_request n])"
  by (auto simp: process_frame_def on_hello_def send_def close_connection_def Let_def
        resume_request_def
      split: sum.splits option.splits prod.splits if_splits)

lemma sent_wait_heartbeat: "sent (snd (wait_heartbeat c st)) = sent st"
  by (cases c) (auto simp: wait_loop_def close_connection_def split: if_splits)

lemma heartbeat_keeps_pong:
  assumes hb: "sends_heartbeat a st"
  shows "pong (step a st) = pong st"
proof (cases a)
  case (Deliver p)
  with hb sent_process_frame [of p st] show ?thesis
    by (auto simp: sends_heartbeat_def heartbeat_frame_def resume_request_def)
next
  case (Resume i)
  show ?thesis
  proof (cases "i < length (tasks st)")
    case False
    with Resume show ?thesis by simp
  next
    case True
    show ?thesis
    proof (cases "tasks st ! i")
      case (Handler name payload c)
      with Resume True show ?thesis by simp
    next
      case (HeartbeatInterval c)
      with Resume True pong_heartbeat_interval [of c st] show ?thesis
        by (auto split: prod.splits)
    next
      case (WaitHeartbeat c)
      with Resume True hb sent_wait_heartbeat [of c st] show ?thesis
        by (auto simp: sends_heartbeat_def split: prod.splits)
    qed
  qed
next
  case Open
  then show ?thesis by simp
next
  case Leave
  then show ?thesis by (simp add: close_connection_def)
next
  case Close
  then show ?thesis by (simp add: close_def close_connection_def)
qed

text \<open>
  Claim C5, as the code has it, with \<open>pong = 0\<close> read as "an acknowledgment is
  pending": in every step of the session, \<open>pong\<close> leaves 0 only when the read loop takes
  an acknowledgment frame (opcode 3), which sets it to 1; it comes back to 0 only when
  a watchdog (\<^verbatim>\<open>wait_heartbeat\<close>) returns, whether it saw the acknowledgment, found the
  session no longer alive or closed the socket after its 30 polls; and a step that
  writes a heartbeat frame leaves \<open>pong\<close> as it was.
\<close>

theorem pong_transitions:
  "(pong (step a st) \<noteq> pong st \<longrightarrow>
      (pong (step a st) = 1 \<and> takes_ack a) \<or> (pong (step a st) = 0 \<and> watchdog_returns a st)) \<and>
   (sends_heartbeat a st \<longrightarrow> pong (step a st) = pong st)"
  using pong_step [of a st] heartbeat_keeps_pong [of a st] by blast

text \<open>The theorem at an acknowledgment frame taken while \<open>pong\<close> is 0, and at the
  heartbeat task writing its frame after 30 sleeps.\<close>

theorem pong_transitions_witness:
  "pong (step (Deliver (bare_frame 3 None)) (session_holding 42 [])) \<noteq> pong (session_holding 42 []) \<and>
   pong (step (Deliver (bare_frame 3 None)) (session_holding 42 [])) = 1 \<and>
   takes_ack (Deliver (bare_frame 3 None)) \<and>
   sends_heartbeat (Resume 0) (session_holding 42 [HeartbeatInterval (Sleeping 29)]) \<and>
   pong (step (Resume 0) (session_holding 42 [HeartbeatInterval (Sleeping 29)])) = 0"
  using pong_transitions [of "Deliver (bare_frame 3 None)" "session_holding 42 []"]
    pong_transitions [of "Resume 0" "session_holding 42 [HeartbeatInterval (Sleeping 29)]"]
  by (simp add: bare_frame_def session_holding_def process_frame_def takes_ack_def
        sends_heartbeat_def send_def heartbeat_loop_def still_alive_def)

text \<open>
  Claim C5 as stated fails: the flag becomes pending (\<open>pong\<close> goes from 1 to 0) when a
  watchdog returns after the acknowledgment, in a step that writes no heartbeat.
\<close>

theorem pong_reset_without_heartbeat:
  "pong ((session_holding 42 [WaitHeartbeat (Sleeping 3)])\<lparr>pong := 1\<rparr>) = 1 \<and>
   pong (step (Resume 0) ((session_holding 42 [WaitHeartbeat (Sleeping 3)])\<lparr>pong := 1\<rparr>)) = 0 \<and>
   \<not> sends_heartbeat (Resume 0) ((session_holding 42 [WaitHeartbeat (Sleeping 3)])\<lparr>pong := 1\<rparr>) \<and>
   sent (step (Resume 0) ((session_holding 42 [WaitHeartbeat (Sleeping 3)])\<lparr>pong := 1\<rparr>)) = []"
  by (simp add: session_holding_def wait_loop_def sends_heartbeat_def)

subsection \<open>The watchdog and the outer loop\<close>

lemma tasks_process_frame: "\<exists>ts. tasks (snd (process_frame p st)) = tasks st @ ts"
  by (auto simp: process_frame_def on_hello_def send_def close_connection_def Let_def
      split: sum.splits option.splits prod.splits if_splits)

lemma tasks_run_task: "\<exists>ts. tasks (snd (run_task t st)) = tasks st @ ts"
proof (cases t)
  case (Handler name payload c)
  then show ?thesis by simp
next
  case (HeartbeatInterval c)
  then show ?thesis
    by (cases c) (auto simp: heartbeat_loop_def send_def split: prod.splits option.splits if_splits)
next
  case (WaitHeartbeat c)
  then show ?thesis
    by (cases c) (auto simp: wait_loop_def close_connection_def split: prod.splits if_splits)
qed

lemma step_other_task:
  assumes "a \<noteq> Resume i" "i < length (tasks st)"
  shows "i < length (tasks (step a st)) \<and> tasks (step a st) ! i = tasks st ! i"
proof (cases a)
  case (Deliver p)
  obtain ts where "tasks (snd (process_frame p st)) = tasks st @ ts"
    using tasks_process_frame by blast
  with Deliver assms(2) show ?thesis by (simp add: nth_append)
next
  case (Resume j)
  with assms(1) have ne: "j \<noteq> i" by simp
  show ?thesis
  proof (cases "j < length (tasks st)")
    case False
    with Resume show ?thesis using assms(2) by simp
  next
    case True
    obtain t' st' where r: "run_task (tasks st ! j) st = (t', st')"
      by (cases "run_task (tasks st ! j) st")
    obtain ts where "tasks (snd (run_task (tasks st ! j) st)) = tasks st @ ts"
      using tasks_run_task by blast
    with r have "tasks st' = tasks st @ ts" by simp
    with Resume True r ne assms(2) show ?thesis by (simp add: nth_append)
  qed
next
  case Open
  with assms(2) show ?thesis by simp
next
  case Leave
  with assms(2) show ?thesis by (simp add: close_connection_def)
next
  case Close
  with assms(2) show ?thesis by (simp add: close_def close_connection_def)
qed

lemma step_poll:
  assumes "i < length (tasks st)" "tasks st ! i = WaitHeartbeat c" "pong st = 0" "still_alive st"
    and "c = Created \<or> (\<exists>m. c = Sleeping m \<and> m < 29)"
  shows "i < length (tasks (step (Resume i) st)) \<and>
         tasks (step (Resume i) st) ! i = WaitHeartbeat (Sleeping (stage c))"
  using assms by (auto simp: wait_loop_def)

lemma watchdog_progress:
  "i < length (tasks st) \<Longrightarrow> tasks st ! i = WaitHeartbeat c \<Longrightarrow>
   c = Created \<or> (\<exists>m. c = Sleeping m) \<Longrightarrow> watched i acts st \<Longrightarrow>
   stage c + count_list acts (Resume i) \<le> 30 \<Longrightarrow>
   i < length (tasks (run acts st)) \<and>
   (\<exists>c'. tasks (run acts st) ! i = WaitHeartbeat c' \<and> (c' = Created \<or> (\<exists>m. c' = Sleeping m)) \<and>
         stage c' = stage c + count_list acts (Resume i))"
proof (induction acts arbitrary: st c)
  case Nil
  then show ?case by simp
next
  case (Cons a acts)
  show ?case
  proof (cases "a = Resume i")
    case True
    from Cons.prems(4) True have q: "pong st = 0" "still_alive st" and w: "watched i acts (step a st)"
      by simp_all
    from Cons.prems(5) True have le: "Suc (stage c) + count_list acts (Resume i) \<le> 30" by simp
    with Cons.prems(3) have early: "c = Created \<or> (\<exists>m. c = Sleeping m \<and> m < 29)" by auto
    from step_poll [OF Cons.prems(1,2) q early] True
    have n: "i < length (tasks (step a st))"
      and t: "tasks (step a st) ! i = WaitHeartbeat (Sleeping (stage c))" by simp_all
    have "stage (Sleeping (stage c)) + count_list acts (Resume i) \<le> 30" using le by simp
    from Cons.IH [OF n t _ w this] True show ?thesis by simp
  next
    case False
    from step_other_task [OF False Cons.prems(1)] Cons.prems(2)
    have n: "i < length (tasks (step a st))" and t: "tasks (step a st) ! i = WaitHeartbeat c"
      by simp_all
    from Cons.prems(4) have w: "watched i acts (step a st)" by simp
    from Cons.prems(5) False have le: "stage c + count_list acts (Resume i) \<le> 30" by simp
    from Cons.IH [OF n t Cons.prems(3) w le] False show ?thesis by simp
  qed
qed

lemma process_frame_keeps:
  "keep_run (snd (process_frame p st)) = keep_run st"
  "connection (snd (process_frame p st)) \<Longrightarrow> connection st"
  by (auto simp: process_frame_def on_hello_def send_def close_connection_def Let_def
      split: sum.splits option.splits prod.splits if_splits)

lemma leave_connect_fields:
  "\<not> connection (snd (leave_connect absorbs raised st))"
  "keep_run (snd (leave_connect absorbs raised st)) = keep_run st"
  by (simp_all add: leave_connect_def close_connection_def split: option.splits)

lemma attempt_ends:
  assumes "\<not> connection st" "ends_attempt absorbs r st"
  shows "fst (connect absorbs gateway (Received r) (InRecv, st)) = InBackoff \<and>
         \<not> connection (snd (connect absorbs gateway (Received r) (InRecv, st))) \<and>
         keep_run (snd (connect absorbs gateway (Received r) (InRecv, st))) = keep_run st"
proof (cases r)
  case (Frame p)
  obtain raised st' where pf: "process_frame p st = (raised, st')"
    by (cases "process_frame p st")
  from process_frame_keeps [of p st] pf assms(1)
  have k: "keep_run st' = keep_run st" and c: "\<not> connection st'" by auto
  show ?thesis
  proof (cases raised)
    case None
    with Frame pf k c show ?thesis
      by (simp add: still_alive_def leave_connect_def close_connection_def)
  next
    case (Some e)
    with Frame pf assms(2) have "absorbs e" by (simp add: ends_attempt_def)
    with Frame pf Some k show ?thesis
      by (simp add: leave_connect_def close_connection_def)
  qed
next
  case Undecodable
  with assms(2) show ?thesis
    by (simp add: ends_attempt_def leave_connect_def close_connection_def)
next
  case Closed
  with assms(2) show ?thesis
    by (simp add: ends_attempt_def leave_connect_def close_connection_def)
qed

lemma backoff_reconnects:
  assumes "keep_run st" "fst (request_gateway gateway st) = None"
  shows "fst (connect absorbs gateway Slept (InBackoff, st)) = InRecv \<and>
         connection (snd (connect absorbs gateway Slept (InBackoff, st)))"
  using assms by (cases "request_gateway gateway st") auto

text \<open>
  Claim C4, as the code has it. A watchdog that finds \<open>pong\<close> at 0 and the session alive
  when it starts and at each of its next 29 polls, one per second, whatever the other
  tasks and the read loop do in between, closes the connection at its 30th poll. The
  pending \<^verbatim>\<open>recv\<close> of the read loop then ends the connection attempt, by a frame that is
  processed without an exception or by an exception that the context manager of the
  connection absorbs; \<^verbatim>\<open>connect\<close> goes to its sleep of 10 seconds with the connection
  closed, and after the sleep, with \<^verbatim>\<open>keep_run\<close> still on and a gateway address at hand,
  it opens a new connection.
\<close>

theorem watchdog_forces_reconnect:
  assumes "i < length (tasks st)" "tasks st ! i = WaitHeartbeat Created"
    and "watched i acts st" "count_list acts (Resume i) = 30"
    and shut: "shut = step (Resume i) (run acts st)"
    and "keep_run shut" "ends_attempt absorbs r shut"
    and "fst (request_gateway gateway (snd (connect absorbs gateway (Received r) (InRecv, shut)))) = None"
  shows "\<not> connection shut \<and>
         fst (connect absorbs gateway (Received r) (InRecv, shut)) = InBackoff \<and>
         \<not> connection (snd (connect absorbs gateway (Received r) (InRecv, shut))) \<and>
         fst (connect absorbs gateway Slept (connect absorbs gateway (Received r) (InRecv, shut))) = InRecv \<and>
         connection (snd (connect absorbs gateway Slept
                            (connect absorbs gateway (Received r) (InRecv, shut))))"
proof -
  let ?s = "run acts st"
  from watchdog_progress [OF assms(1,2) _ assms(3)] assms(4)
  obtain c' where n: "i < length (tasks ?s)" and t: "tasks ?s ! i = WaitHeartbeat c'"
    and c: "c' = Created \<or> (\<exists>m. c' = Sleeping m)" and s: "stage c' = 30"
    by auto
  from c s have "c' = Sleeping 29" by auto
  with n t have closed: "\<not> connection shut"
    unfolding shut by (simp add: wait_loop_def close_connection_def still_alive_def)
  let ?b = "connect absorbs gateway (Received r) (InRecv, shut)"
  from attempt_ends [OF closed assms(7), of gateway]
  have b: "fst ?b = InBackoff" "\<not> connection (snd ?b)" "keep_run (snd ?b) = keep_run shut"
    by simp_all
  with assms(6) have k: "keep_run (snd ?b)" by simp
  have e: "?b = (InBackoff, snd ?b)" using b(1) by (cases ?b) simp
  from backoff_reconnects [OF k assms(8), of absorbs]
  have "fst (connect absorbs gateway Slept ?b) = InRecv \<and>
        connection (snd (connect absorbs gateway Slept ?b))"
    using e by simp
  with closed b show ?thesis by simp
qed

text \<open>The theorem on a session whose watchdog is resumed 30 times while a dispatch frame
  arrives and nothing else happens: the next resumption closes the connection, the
  failing \<^verbatim>\<open>recv\<close> is absorbed, and the outer loop reconnects after its sleep.\<close>

theorem watchdog_forces_reconnect_witness:
  "watched 0 quiet_window watchdog_session \<and>
   count_list quiet_window (Resume 0) = 30 \<and>
   keep_run (step (Resume 0) (run quiet_window watchdog_session)) \<and>
   \<not> connection (step (Resume 0) (run quiet_window watchdog_session)) \<and>
   fst (connect absorbs_all (Inr None) (Received Closed)
          (InRecv, step (Resume 0) (run quiet_window watchdog_session))) = InBackoff \<and>
   connection (snd (connect absorbs_all (Inr None) Slept
     (connect absorbs_all (Inr None) (Received Closed)
        (InRecv, step (Resume 0) (run quiet_window watchdog_session)))))"
proof -
  let ?shut = "step (Resume 0) (run quiet_window watchdog_session)"
  have a: "0 < length (tasks watchdog_session)" "tasks watchdog_session ! 0 = WaitHeartbeat Created"
    by (simp_all add: watchdog_session_def session_holding_def)
  have w: "watched 0 quiet_window watchdog_session" by code_simp
  have c: "count_list quiet_window (Resume 0) = 30" by code_simp
  have k: "keep_run ?shut" by code_simp
  have e: "ends_attempt absorbs_all Closed ?shut"
    by (simp add: ends_attempt_def absorbs_all_def)
  have g: "fst (request_gateway (Inr None)
      (snd (connect absorbs_all (Inr None) (Received Closed) (InRecv, ?shut)))) = None"
    by code_simp
  from watchdog_forces_reconnect [OF a w c refl k e g] w c k show ?thesis by simp
qed

text \<open>
  Claim C4 as stated fails when \<open>pong\<close> is not 0 at the moment the heartbeat is sent,
  here because an acknowledgment arrived before it: the heartbeat is written, no
  acknowledgment follows, the session stays alive, and the watchdog returns at its
  first look without closing anything. The connection is still open after 31 further
  resumptions.
\<close>

theorem watchdog_returns_on_stale_ack:
  "sends_heartbeat (Resume 0)
     (step (Deliver (bare_frame 3 None)) (session_holding 42 [HeartbeatInterval (Sleeping 29)])) \<and>
   tasks (run [Deliver (bare_frame 3 None), Resume 0, Resume 1]
            (session_holding 42 [HeartbeatInterval (Sleeping 29)])) =
     [HeartbeatInterval (Sleeping 0), WaitHeartbeat Finished] \<and>
   still_alive (run [Deliver (bare_frame 3 None), Resume 0, Resume 1]
            (session_holding 42 [HeartbeatInterval (Sleeping 29)])) \<and>
   connection (run ([Deliver (bare_frame 3 None), Resume 0, Resume 1] @ replicate 31 (Resume 1))
            (session_holding 42 [HeartbeatInterval (Sleeping 29)]))"
  by code_simp

subsection \<open>The role cache\<close>

text \<open>
  Claim C8, as the code has it: a query of the role list for a guild within 10
  seconds of the last recorded fetch makes no request and leaves the cache as it is; a
  query later than that, or for a guild never fetched, makes exactly one request; and
  when that request comes back empty (no response, or a falsy body) the entry of the
  guild is deleted and the time of the fetch recorded.
\<close>

theorem role_cache_ttl:
  "(within_ttl now g c \<longrightarrow> record_role_list now resp later g c = (None, c, [])) \<and>
   (\<not> within_ttl now g c \<longrightarrow> snd (snd (record_role_list now resp later g c)) = [g]) \<and>
   (\<not> within_ttl now g c \<and> came_back_empty resp \<longrightarrow>
      fst (record_role_list now resp later g c) = None \<and>
      guild_role (fst (snd (record_role_list now resp later g c))) g = None \<and>
      cache_create_time (fst (snd (record_role_list now resp later g c))) g = Some later)"
  by (auto simp: record_role_list_def came_back_empty_def store_roles_def delete_roles_def
      split: sum.splits option.splits)

text \<open>The theorem on a cache filled at the time 0: a query at the time 5 and one at
  the time 10 whose request brings no response.\<close>

theorem role_cache_ttl_witness:
  "within_ttl 5 ''g'' stale_cache \<and>
   record_role_list 5 NoResponse 6 ''g'' stale_cache = (None, stale_cache, []) \<and>
   \<not> within_ttl 10 ''g'' stale_cache \<and> came_back_empty NoResponse \<and>
   snd (snd (record_role_list 10 NoResponse 11 ''g'' stale_cache)) = [''g''] \<and>
   guild_role (fst (snd (record_role_list 10 NoResponse 11 ''g'' stale_cache))) ''g'' = None"
  using role_cache_ttl [of 5 "''g''" stale_cache NoResponse 6]
    role_cache_ttl [of 10 "''g''" stale_cache NoResponse 11]
  by (simp add: within_ttl_def stale_cache_def came_back_empty_def check_response_def)

text \<open>
  Claim C8 as stated fails where the refetch fails with an API error: the response
  check raises, and the stale entry of the guild stays in the cache.
\<close>

theorem role_cache_api_error:
  "\<not> within_ttl 20 ''g'' stale_cache \<and>
   fst (record_role_list 20 (Body error_body) 21 ''g'' stale_cache) =
     Some (ResponseException (JInt 40000)) \<and>
   guild_role (fst (snd (record_role_list 20 (Body error_body) 21 ''g'' stale_cache))) ''g'' =
     Some [(JInt 7, JInt 1)]"
  by (simp add: record_role_list_def within_ttl_def stale_cache_def error_body_def
        check_response_def)

section \<open>Properties of the registries\<close>

subsection \<open>Lists extended in place\<close>

lemma lists_iadd: "lists (iadd a b h) x = (if x = a then lists h a @ lists h b else lists h x)"
  by (simp add: iadd_def)

lemma configs_iadd: "configs (iadd a b h) = configs h"
  by (simp add: iadd_def)

lemma iadd_all_append: "iadd_all (ps @ qs) h = iadd_all qs (iadd_all ps h)"
  by (induction ps arbitrary: h) auto

lemma lists_iadd_all_cong: "lists h = lists h' \<Longrightarrow> lists (iadd_all ps h) = lists (iadd_all ps h')"
proof (induction ps arbitrary: h h')
  case Nil
  then show ?case by simp
next
  case (Cons p ps)
  obtain a b where p: "p = (a, b)" by (cases p)
  from Cons.prems have "lists (iadd a b h) = lists (iadd a b h')"
    by (simp add: iadd_def)
  from Cons.IH [OF this] p show ?case by simp
qed

lemma lists_iadd_all:
  "plan_ok ps \<Longrightarrow>
   lists (iadd_all ps h) x = lists h x @ (case map_of ps x of None \<Rightarrow> [] | Some b \<Rightarrow> lists h b)"
proof (induction ps arbitrary: h)
  case Nil
  then show ?case by simp
next
  case (Cons p ps)
  obtain a b where p: "p = (a, b)" by (cases p)
  from Cons.prems p have ok: "plan_ok ps" and nw: "a \<notin> fst ` set ps" and nr: "a \<notin> snd ` set ps"
    by auto
  have IH: "lists (iadd_all ps (iadd a b h)) x =
      lists (iadd a b h) x @ (case map_of ps x of None \<Rightarrow> [] | Some c \<Rightarrow> lists (iadd a b h) c)"
    by (rule Cons.IH [OF ok])
  show ?case
  proof (cases "x = a")
    case True
    from nw have "map_of ps a = None" by (simp add: map_of_eq_None_iff)
    with IH True p show ?thesis by (simp add: lists_iadd)
  next
    case False
    have "(case map_of ps x of None \<Rightarrow> [] | Some c \<Rightarrow> lists (iadd a b h) c) =
          (case map_of ps x of None \<Rightarrow> [] | Some c \<Rightarrow> lists h c)"
    proof (cases "map_of ps x")
      case None
      then show ?thesis by simp
    next
      case (Some c)
      then have "(x, c) \<in> set ps" by (rule map_of_SomeD)
      then have "c \<in> snd ` set ps" by force
      with nr have "c \<noteq> a" by auto
      with Some show ?thesis by (simp add: lists_iadd)
    qed
    with IH False p show ?thesis by (simp add: lists_iadd)
  qed
qed

lemma combine_dict_store:
  "distinct (map fst src) \<Longrightarrow> (\<And>k. k \<in> fst ` set src \<Longrightarrow> map_of tgt k = m k) \<Longrightarrow>
   snd (combine_dict tgt src h) =
     iadd_all (concat (map (\<lambda>kb. case m (fst kb) of None \<Rightarrow> [] | Some a \<Rightarrow> [(a, snd kb)]) src)) h"
proof (induction src arbitrary: tgt h)
  case Nil
  then show ?case by simp
next
  case (Cons p src)
  obtain e b where p: "p = (e, b)" by (cases p)
  from Cons.prems(1) p have d: "distinct (map fst src)" and ne: "e \<notin> fst ` set src" by auto
  have me: "map_of tgt e = m e" using Cons.prems(2) [of e] p by simp
  show ?case
  proof (cases "m e")
    case None
    have "\<And>k. k \<in> fst ` set src \<Longrightarrow> map_of (tgt @ [(e, b)]) k = m k"
    proof -
      fix k assume k: "k \<in> fst ` set src"
      with ne have "k \<noteq> e" by auto
      moreover have "map_of tgt k = m k" using Cons.prems(2) [of k] k p by simp
      ultimately show "map_of (tgt @ [(e, b)]) k = m k"
        by (simp add: map_add_def split: option.splits)
    qed
    from Cons.IH [OF d this] None me p show ?thesis by simp
  next
    case (Some a)
    have "\<And>k. k \<in> fst ` set src \<Longrightarrow> map_of tgt k = m k"
      using Cons.prems(2) p by simp
    from Cons.IH [OF d this] Some me p show ?thesis by simp
  qed
qed

lemma map_of_filter_key:
  "map_of (filter (\<lambda>kb. P (fst kb)) xs) k = (if P k then map_of xs k else None)"
  by (induction xs) auto

lemma combine_dict_keys:
  "distinct (map fst src) \<Longrightarrow>
   fst (combine_dict tgt src h) = tgt @ filter (\<lambda>kb. map_of tgt (fst kb) = None) src"
proof (induction src arbitrary: tgt h)
  case Nil
  then show ?case by simp
next
  case (Cons p src)
  obtain e b where p: "p = (e, b)" by (cases p)
  from Cons.prems p have d: "distinct (map fst src)" and ne: "e \<notin> fst ` set src" by auto
  show ?case
  proof (cases "map_of tgt e")
    case None
    have "filter (\<lambda>kb. map_of (tgt @ [(e, b)]) (fst kb) = None) src =
          filter (\<lambda>kb. map_of tgt (fst kb) = None) src"
    proof (rule filter_cong [OF refl])
      fix kb assume "kb \<in> set src"
      with ne have "fst kb \<noteq> e" by force
      then show "(map_of (tgt @ [(e, b)]) (fst kb) = None) = (map_of tgt (fst kb) = None)"
        by (simp add: map_add_def split: option.splits)
    qed
    with Cons.IH [OF d, of "tgt @ [(e, b)]" h] None p show ?thesis by simp
  next
    case (Some a)
    with Cons.IH [OF d, of tgt "iadd a b h"] p show ?thesis by simp
  qed
qed

lemma map_of_combine_dict:
  "distinct (map fst src) \<Longrightarrow>
   map_of (fst (combine_dict tgt src h)) k =
     (case map_of tgt k of None \<Rightarrow> map_of src k | Some a \<Rightarrow> Some a)"
  by (simp add: combine_dict_keys map_add_def map_of_filter_key [where P = "\<lambda>k. map_of tgt k = None"]
      split: option.splits)

subsection \<open>The places of a registry\<close>

lemma map_of_tagged:
  "inj f \<Longrightarrow> map_of (map (\<lambda>kv. (f (fst kv), snd kv)) xs) (f k) = map_of xs k"
  by (induction xs) (auto dest: injD)

lemma map_of_tagged_other:
  "(\<And>k. f k \<noteq> sl) \<Longrightarrow> map_of (map (\<lambda>kv. (f (fst kv), snd kv)) xs) sl = None"
  by (induction xs) auto

lemma slot_addr_slots: "map_of (slots r) sl = slot_addr r sl"
proof -
  have ie: "inj EventHandlers" and ix: "inj ExceptionHandlers" by (auto simp: inj_def)
  show ?thesis
    by (cases sl)
       (simp_all add: slots_def map_add_def map_of_tagged [OF ie] map_of_tagged [OF ix]
          map_of_tagged_other split: option.splits)
qed

lemma slot_addr_mem: "slot_addr r sl = Some a \<Longrightarrow> (sl, a) \<in> set (slots r)"
  by (simp add: slot_addr_slots [symmetric] map_of_SomeD)

lemma slot_addr_inj:
  assumes "separate r" "slot_addr r sl = Some a" "slot_addr r sl' = Some a"
  shows "sl = sl'"
proof -
  from assms(1) have "distinct (map snd (slots r))" by (simp add: separate_def)
  then have i: "inj_on snd (set (slots r))" by (simp add: distinct_map)
  from assms have m: "(sl, a) \<in> set (slots r)" "(sl', a) \<in> set (slots r)"
    by (auto dest: slot_addr_mem)
  have "(sl, a) = (sl', a)" by (rule inj_onD [OF i _ m]) simp
  then show ?thesis by simp
qed

lemma compatible_same_slot:
  assumes "compatible t r" "slot_addr t sl = Some a" "(sl', a) \<in> set (slots r)"
  shows "sl = sl'"
proof -
  from assms(2) have "(sl, a) \<in> set (slots t)" by (rule slot_addr_mem)
  with assms(1, 3) show ?thesis
    by (fastforce simp: compatible_def list_all_iff)
qed

lemma plan_ok_plan:
  assumes inj: "\<And>sl sl' a. m sl = Some a \<Longrightarrow> m sl' = Some a \<Longrightarrow> sl = sl'"
  shows "distinct (map fst ss) \<Longrightarrow>
     (\<And>sl sl' a. m sl = Some a \<Longrightarrow> (sl', a) \<in> set ss \<Longrightarrow> sl = sl') \<Longrightarrow> plan_ok (plan m ss)"
proof (induction ss)
  case Nil
  then show ?case by (simp add: plan_def)
next
  case (Cons p ss)
  obtain sl b where p: "p = (sl, b)" by (cases p)
  from Cons.prems(1) p have d: "distinct (map fst ss)" and ns: "sl \<notin> fst ` set ss" by auto
  have rest: "plan_ok (plan m ss)"
    by (rule Cons.IH [OF d]) (use Cons.prems(2) in auto)
  show ?case
  proof (cases "m sl")
    case None
    with rest p show ?thesis by (simp add: plan_def)
  next
    case (Some a)
    have nw: "a \<notin> fst ` set (plan m ss)"
    proof
      assume "a \<in> fst ` set (plan m ss)"
      then obtain sl' b' where "(sl', b') \<in> set ss" "m sl' = Some a"
        by (auto simp: plan_def split: option.splits)
      with inj [OF Some] ns show False by force
    qed
    have nr: "a \<notin> snd ` set (plan m ss)"
    proof
      assume "a \<in> snd ` set (plan m ss)"
      then obtain sl' where "(sl', a) \<in> set ss"
        by (auto simp: plan_def split: option.splits)
      with Cons.prems(2) [OF Some, of sl'] ns show False by force
    qed
    from rest nw nr Some p show ?thesis by (simp add: plan_def)
  qed
qed

lemma map_of_plan_None:
  "(\<And>sl. m sl \<noteq> Some x) \<Longrightarrow> map_of (plan m ss) x = None"
  by (induction ss) (auto simp: plan_def split: option.splits)

lemma map_of_plan_Some:
  assumes inj: "\<And>sl sl' a. m sl = Some a \<Longrightarrow> m sl' = Some a \<Longrightarrow> sl = sl'"
    and m: "m sl = Some a"
  shows "map_of (plan m ss) a = map_of ss sl"
proof (induction ss)
  case Nil
  then show ?case by (simp add: plan_def)
next
  case (Cons p ss)
  obtain sl' b where p: "p = (sl', b)" by (cases p)
  have pl: "plan m (p # ss) = (case m sl' of None \<Rightarrow> [] | Some a' \<Rightarrow> [(a', b)]) @ plan m ss"
    using p by (simp add: plan_def split: option.splits)
  show ?case
  proof (cases "sl' = sl")
    case True
    with m p pl show ?thesis by simp
  next
    case False
    have "m sl' \<noteq> Some a" using inj [OF m, of sl'] False by auto
    with Cons.IH False p pl show ?thesis by (auto split: option.splits)
  qed
qed

lemma distinct_tagged:
  "distinct (map (\<lambda>kv. f (fst kv)) xs) \<Longrightarrow> distinct (map fst xs)"
  by (induction xs) force+

lemma separate_keys:
  assumes "separate r"
  shows "distinct (map fst (event_handlers r))" "distinct (map fst (exception_handlers r))"
proof -
  from assms have d: "distinct (map fst (slots r))" by (simp add: separate_def)
  have "distinct (map (\<lambda>kv. EventHandlers (fst kv)) (event_handlers r))"
    using d by (simp add: slots_def o_def)
  then show "distinct (map fst (event_handlers r))" by (rule distinct_tagged)
  have "distinct (map (\<lambda>kv. ExceptionHandlers (fst kv)) (exception_handlers r))"
    using d by (simp add: slots_def o_def)
  then show "distinct (map fst (exception_handlers r))" by (rule distinct_tagged)
qed

lemma plan_slots:
  "plan (slot_addr t) (slots r) =
     [(prefix_keywords t, prefix_keywords r), (message_handlers t, message_handlers r),
      (after_reply_handlers t, after_reply_handlers r),
      (before_reply_handlers t, before_reply_handlers r),
      (message_handler_middleware t, message_handler_middleware r)]
     @ concat (map (\<lambda>kb. case map_of (event_handlers t) (fst kb) of None \<Rightarrow> [] | Some a \<Rightarrow> [(a, snd kb)])
         (event_handlers r))
     @ concat (map (\<lambda>kb. case map_of (exception_handlers t) (fst kb) of None \<Rightarrow> [] | Some a \<Rightarrow> [(a, snd kb)])
         (exception_handlers r))"
  by (simp add: plan_def slots_def o_def cong: option.case_cong)

lemma combine_factory_lists:
  assumes "separate r"
  shows "lists (snd (combine_factory t r h)) = lists (iadd_all (plan (slot_addr t) (slots r)) h)"
proof -
  define h5 where "h5 =
    iadd (message_handler_middleware t) (message_handler_middleware r)
     (iadd (before_reply_handlers t) (before_reply_handlers r)
       (iadd (after_reply_handlers t) (after_reply_handlers r)
         (iadd (message_handlers t) (message_handlers r)
           (iadd (prefix_keywords t) (prefix_keywords r) h))))"
  define h6 where "h6 = update_config (group_config t) (group_config r) h5"
  define pe where "pe = concat (map (\<lambda>kb. case map_of (event_handlers t) (fst kb) of None \<Rightarrow> [] | Some a \<Rightarrow> [(a, snd kb)])
         (event_handlers r))"
  define px where "px = concat (map (\<lambda>kb. case map_of (exception_handlers t) (fst kb) of None \<Rightarrow> [] | Some a \<Rightarrow> [(a, snd kb)])
         (exception_handlers r))"
  have e: "snd (combine_dict (event_handlers t) (event_handlers r) h6) = iadd_all pe h6"
    unfolding pe_def by (rule combine_dict_store [OF separate_keys(1) [OF assms]]) simp
  have x: "snd (combine_dict (exception_handlers t) (exception_handlers r) (iadd_all pe h6)) =
      iadd_all px (iadd_all pe h6)"
    unfolding px_def by (rule combine_dict_store [OF separate_keys(2) [OF assms]]) simp
  have "snd (combine_factory t r h) = iadd_all px (iadd_all pe h6)"
    by (simp add: combine_factory_def Let_def split_beta
          e [unfolded h6_def h5_def] x [unfolded h6_def h5_def] h6_def h5_def)
  then have "lists (snd (combine_factory t r h)) = lists (iadd_all (pe @ px) h6)"
    by (simp add: iadd_all_append)
  also have "\<dots> = lists (iadd_all (pe @ px) h5)"
    by (rule lists_iadd_all_cong) (simp add: h6_def update_config_def)
  also have "\<dots> = lists (iadd_all (plan (slot_addr t) (slots r)) h)"
    by (simp add: plan_slots h5_def pe_def px_def)
  finally show ?thesis .
qed

lemma slot_addr_combine:
  assumes "separate r"
  shows "slot_addr (fst (combine_factory t r h)) sl =
     (case slot_addr t sl of None \<Rightarrow> slot_addr r sl | Some a \<Rightarrow> Some a)"
proof -
  note ke = separate_keys [OF assms]
  show ?thesis
    by (cases sl)
       (simp_all add: combine_factory_def Let_def split_beta
          map_of_combine_dict [OF ke(1), simplified] map_of_combine_dict [OF ke(2), simplified]
          cong: option.case_cong)
qed

subsection \<open>The entries after a composition\<close>

lemma slots_mem_addr:
  assumes "separate r" "(sl, a) \<in> set (slots r)"
  shows "slot_addr r sl = Some a"
proof -
  from assms(1) have "distinct (map fst (slots r))" by (simp add: separate_def)
  with assms(2) have "map_of (slots r) sl = Some a" by simp
  then show ?thesis by (simp add: slot_addr_slots)
qed

lemma combine_entries_general:
  assumes inj: "\<And>sl sl' a. slot_addr t sl = Some a \<Longrightarrow> slot_addr t sl' = Some a \<Longrightarrow> sl = sl'"
    and sep: "separate r"
    and com: "\<And>sl sl' a. slot_addr t sl = Some a \<Longrightarrow> slot_addr r sl' = Some a \<Longrightarrow> sl = sl'"
  shows "entries (snd (combine_factory t r h)) (fst (combine_factory t r h)) sl =
           entries h t sl @ entries h r sl"
    and "(\<And>sl'. slot_addr t sl' \<noteq> Some x) \<Longrightarrow> lists (snd (combine_factory t r h)) x = lists h x"
proof -
  let ?p = "plan (slot_addr t) (slots r)"
  from sep have d: "distinct (map fst (slots r))" by (simp add: separate_def)
  have ok: "plan_ok ?p"
  proof (rule plan_ok_plan [OF inj d])
    fix sl sl' a assume "slot_addr t sl = Some a" "(sl', a) \<in> set (slots r)"
    then show "sl = sl'" using com slots_mem_addr [OF sep] by blast
  qed
  have L: "\<And>y. lists (snd (combine_factory t r h)) y =
      lists h y @ (case map_of ?p y of None \<Rightarrow> [] | Some b \<Rightarrow> lists h b)"
    by (simp add: combine_factory_lists [OF sep] lists_iadd_all [OF ok])
  show "lists (snd (combine_factory t r h)) x = lists h x" if "\<And>sl'. slot_addr t sl' \<noteq> Some x"
    using L [of x] map_of_plan_None [of "slot_addr t" x "slots r"] that by simp
  show "entries (snd (combine_factory t r h)) (fst (combine_factory t r h)) sl =
           entries h t sl @ entries h r sl"
  proof (cases "slot_addr t sl")
    case (Some a)
    have "map_of ?p a = slot_addr r sl"
      using map_of_plan_Some [of "slot_addr t" sl a "slots r"] inj Some
      by (simp add: slot_addr_slots)
    with L [of a] Some show ?thesis
      by (simp add: entries_def slot_addr_combine [OF sep])
  next
    case None
    show ?thesis
    proof (cases "slot_addr r sl")
      case N: None
      with None show ?thesis by (simp add: entries_def slot_addr_combine [OF sep])
    next
      case (Some b)
      have "\<And>sl'. slot_addr t sl' \<noteq> Some b"
      proof
        fix sl' assume "slot_addr t sl' = Some b"
        from com [OF this Some] None \<open>slot_addr t sl' = Some b\<close> show False by simp
      qed
      then have "map_of ?p b = None" by (rule map_of_plan_None)
      with L [of b] None Some show ?thesis
        by (simp add: entries_def slot_addr_combine [OF sep])
    qed
  qed
qed

lemma combine_entries:
  assumes "separate t" "separate r" "compatible t r"
  shows "entries (snd (combine_factory t r h)) (fst (combine_factory t r h)) sl =
           entries h t sl @ entries h r sl"
proof (rule combine_entries_general(1) [OF _ assms(2)])
  fix sl sl' a assume "slot_addr t sl = Some a" "slot_addr t sl' = Some a"
  then show "sl = sl'" by (rule slot_addr_inj [OF assms(1)])
next
  fix sl sl' a assume "slot_addr t sl = Some a" "slot_addr r sl' = Some a"
  then show "sl = sl'" using compatible_same_slot [OF assms(3)] slot_addr_mem by blast
qed

lemma apart_addr:
  assumes "apart t r" "slot_addr t sl = Some a" "slot_addr r sl' = Some b"
  shows "a \<noteq> b"
proof -
  from assms(2, 3) have "(sl, a) \<in> set (slots t)" "(sl', b) \<in> set (slots r)"
    by (auto dest: slot_addr_mem)
  with assms(1) show ?thesis by (fastforce simp: apart_def list_all_iff)
qed

lemma handlers_of_entries:
  "handlers_of h (event_handlers r) k = entries h r (EventHandlers k)"
  "handlers_of h (exception_handlers r) k = entries h r (ExceptionHandlers k)"
  by (simp_all add: handlers_of_def entries_def)

text \<open>Composition keeps the registries well formed and compatible, so the conditions
  of the theorems below hold again for the next composition.\<close>

lemma distinct_snd:
  assumes d: "distinct (map fst xs)"
    and inj: "\<And>k k' a. map_of xs k = Some a \<Longrightarrow> map_of xs k' = Some a \<Longrightarrow> k = k'"
  shows "distinct (map snd xs)"
proof -
  from d have dx: "distinct xs" by (simp add: distinct_map)
  have "inj_on snd (set xs)"
  proof (rule inj_onI)
    fix p q assume p: "p \<in> set xs" and q: "q \<in> set xs" and e: "snd p = snd q"
    from d p have "map_of xs (fst p) = Some (snd p)" by simp
    moreover from d q e have "map_of xs (fst q) = Some (snd p)" by simp
    ultimately have "fst p = fst q" by (rule inj)
    with e show "p = q" by (simp add: prod_eq_iff)
  qed
  with dx show ?thesis by (simp add: distinct_map)
qed

lemma separate_iff:
  "separate r \<longleftrightarrow>
     distinct (map fst (slots r)) \<and>
     (\<forall>sl sl' a. slot_addr r sl = Some a \<longrightarrow> slot_addr r sl' = Some a \<longrightarrow> sl = sl')"
proof
  assume s: "separate r"
  then show "distinct (map fst (slots r)) \<and>
     (\<forall>sl sl' a. slot_addr r sl = Some a \<longrightarrow> slot_addr r sl' = Some a \<longrightarrow> sl = sl')"
    using slot_addr_inj [OF s] by (auto simp: separate_def)
next
  assume a: "distinct (map fst (slots r)) \<and>
     (\<forall>sl sl' a. slot_addr r sl = Some a \<longrightarrow> slot_addr r sl' = Some a \<longrightarrow> sl = sl')"
  then have "distinct (map snd (slots r))"
    by (intro distinct_snd) (auto simp: slot_addr_slots)
  with a show "separate r" by (simp add: separate_def)
qed

lemma distinct_slots_keys:
  "distinct (map fst (slots r)) \<longleftrightarrow>
     distinct (map fst (event_handlers r)) \<and> distinct (map fst (exception_handlers r))"
  by (auto simp: slots_def o_def distinct_map inj_on_def)

lemma distinct_combine_dict:
  assumes "distinct (map fst tgt)" "distinct (map fst src)"
  shows "distinct (map fst (fst (combine_dict tgt src h)))"
proof -
  have "set (map fst tgt) \<inter> set (map fst (filter (\<lambda>kb. map_of tgt (fst kb) = None) src)) = {}"
    by (force simp: map_of_eq_None_iff)
  with assms show ?thesis
    by (simp add: combine_dict_keys distinct_map_filter)
qed

lemma combine_preserves:
  assumes t: "separate t" and r: "separate r" and c: "compatible t r"
  shows "separate (fst (combine_factory t r h))"
    and "compatible (fst (combine_factory t r h)) r"
proof -
  let ?t' = "fst (combine_factory t r h)"
  have s1: "\<And>sl. slot_addr ?t' sl =
      (case slot_addr t sl of None \<Rightarrow> slot_addr r sl | Some a \<Rightarrow> Some a)"
    by (rule slot_addr_combine [OF r])
  have injt: "\<And>sl sl' a. slot_addr t sl = Some a \<Longrightarrow> slot_addr t sl' = Some a \<Longrightarrow> sl = sl'"
    by (rule slot_addr_inj [OF t])
  have injr: "\<And>sl sl' a. slot_addr r sl = Some a \<Longrightarrow> slot_addr r sl' = Some a \<Longrightarrow> sl = sl'"
    by (rule slot_addr_inj [OF r])
  have com: "\<And>sl sl' a. slot_addr t sl = Some a \<Longrightarrow> slot_addr r sl' = Some a \<Longrightarrow> sl = sl'"
    using compatible_same_slot [OF c] slot_addr_mem by blast
  have from1: "\<And>sl a. slot_addr ?t' sl = Some a \<Longrightarrow>
      slot_addr t sl = Some a \<or> (slot_addr t sl = None \<and> slot_addr r sl = Some a)"
    by (simp add: s1 split: option.splits)
  have inj1: "sl = sl'" if a: "slot_addr ?t' sl = Some a" and b: "slot_addr ?t' sl' = Some a"
    for sl sl' a
  proof -
    from from1 [OF a] from1 [OF b] show ?thesis
    proof (elim disjE conjE)
      assume "slot_addr t sl = Some a" "slot_addr t sl' = Some a"
      then show ?thesis by (rule injt)
    next
      assume x: "slot_addr t sl = Some a" and y: "slot_addr t sl' = None" "slot_addr r sl' = Some a"
      from com [OF x y(2)] x y(1) show ?thesis by simp
    next
      assume x: "slot_addr t sl' = Some a" and y: "slot_addr t sl = None" "slot_addr r sl = Some a"
      from com [OF x y(2)] x y(1) show ?thesis by simp
    next
      assume "slot_addr r sl = Some a" "slot_addr r sl' = Some a"
      then show ?thesis by (rule injr)
    qed
  qed
  have com1: "sl = sl'" if a: "slot_addr ?t' sl = Some a" and b: "slot_addr r sl' = Some a"
    for sl sl' a
    using from1 [OF a] b com injr by blast
  have keys: "distinct (map fst (slots ?t'))"
    using t r
    by (simp add: distinct_slots_keys separate_def combine_factory_def Let_def split_beta
          distinct_combine_dict)
  with inj1 show "separate ?t'" by (auto simp: separate_iff)
  show "compatible ?t' r"
    unfolding compatible_def list_all_iff
  proof (intro ballI impI)
    fix ta rb assume ta: "ta \<in> set (slots ?t')" and rb: "rb \<in> set (slots r)" and e: "snd ta = snd rb"
    from keys ta have "slot_addr ?t' (fst ta) = Some (snd ta)"
      by (simp add: slot_addr_slots [symmetric])
    moreover from r rb e have "slot_addr r (fst rb) = Some (snd ta)"
      using slots_mem_addr [OF r, of "fst rb" "snd rb"] by simp
    ultimately show "fst ta = fst rb" by (rule com1)
  qed
qed

text \<open>
  Claim C3: for two registries that are well formed and compatible, combining the
  parent (the source) into the target loses no event handler and no exception handler.
  For every key, the list that the target holds afterwards is the list it held before
  followed by the list of the source, so its length is the sum of the two lengths; a
  key that a dict lacks counts as the empty list.
\<close>

theorem combine_keeps_handlers:
  assumes "separate target" "separate parent" "compatible target parent"
    and "combine_factory target parent h = (target', h')"
  shows "handlers_of h' (event_handlers target') k =
           handlers_of h (event_handlers target) k @ handlers_of h (event_handlers parent) k \<and>
         length (handlers_of h' (event_handlers target') k) =
           length (handlers_of h (event_handlers target) k) +
           length (handlers_of h (event_handlers parent) k) \<and>
         handlers_of h' (exception_handlers target') k' =
           handlers_of h (exception_handlers target) k' @ handlers_of h (exception_handlers parent) k' \<and>
         length (handlers_of h' (exception_handlers target') k') =
           length (handlers_of h (exception_handlers target) k') +
           length (handlers_of h (exception_handlers parent) k')"
  using combine_entries [OF assms(1-3), where h = h and sl = "EventHandlers k"]
    combine_entries [OF assms(1-3), where h = h and sl = "ExceptionHandlers k'"] assms(4)
  by (simp add: handlers_of_entries)

text \<open>The theorem on a bot and a plugin that both handle the event \<open>open\<close>; only the
  plugin handles the exception.\<close>

theorem combine_keeps_handlers_witness:
  "separate bot_factory \<and> separate plugin_factory \<and> compatible bot_factory plugin_factory \<and>
   handlers_of (snd (combine_factory bot_factory plugin_factory plugin_store))
     (event_handlers (fst (combine_factory bot_factory plugin_factory plugin_store))) ''open'' =
     [Func ''bot_open'', Func ''plugin_open''] \<and>
   length (handlers_of (snd (combine_factory bot_factory plugin_factory plugin_store))
     (exception_handlers (fst (combine_factory bot_factory plugin_factory plugin_store))) ''ValueError'') = 1"
proof -
  have a: "separate bot_factory" and b: "separate plugin_factory"
    by (simp_all add: separate_def slots_def bot_factory_def plugin_factory_def)
  have c: "compatible bot_factory plugin_factory"
    by (simp add: compatible_def slots_def bot_factory_def plugin_factory_def)
  have e: "combine_factory bot_factory plugin_factory plugin_store =
      (fst (combine_factory bot_factory plugin_factory plugin_store),
       snd (combine_factory bot_factory plugin_factory plugin_store))"
    by simp
  have v: "handlers_of plugin_store (event_handlers bot_factory) ''open'' = [Func ''bot_open'']"
      "handlers_of plugin_store (event_handlers plugin_factory) ''open'' = [Func ''plugin_open'']"
      "handlers_of plugin_store (exception_handlers bot_factory) ''ValueError'' = []"
      "handlers_of plugin_store (exception_handlers plugin_factory) ''ValueError'' = [Func ''plugin_error'']"
    by (simp_all add: handlers_of_def bot_factory_def plugin_factory_def plugin_store_def)
  from combine_keeps_handlers [OF a b c e, of "''open''" "''ValueError''"] a b c v
  show ?thesis by simp
qed

text \<open>
  Claim C6: composition does not deduplicate. For a target and a source that are well
  formed and share no list, combining the source into the target a second time appends
  the entries of the source a second time, at every sequence (prefix keywords, message
  handlers, hooks, middleware) and at every key of the two dicts: the second result
  differs from the first wherever the source has an entry. Combining the source into a
  fresh copy of the original target, a registry with lists of its own that hold what
  the target held, gives the entries of the first result again.
\<close>

theorem combine_twice_appends_twice:
  assumes "separate target" "separate parent" "apart target parent"
    and one: "combine_factory target parent h = (t1, h1)"
    and two: "combine_factory t1 parent h1 = (t2, h2)"
    and copy: "separate fresh" "apart fresh parent" "\<forall>sl. entries h1 fresh sl = entries h target sl"
    and three: "combine_factory fresh parent h1 = (t3, h3)"
  shows "entries h1 t1 sl = entries h target sl @ entries h parent sl \<and>
         entries h2 t2 sl = entries h target sl @ entries h parent sl @ entries h parent sl \<and>
         (entries h parent sl \<noteq> [] \<longrightarrow> entries h2 t2 sl \<noteq> entries h1 t1 sl) \<and>
         entries h3 t3 sl = entries h1 t1 sl"
proof -
  have inj: "\<And>sl sl' a. slot_addr target sl = Some a \<Longrightarrow> slot_addr target sl' = Some a \<Longrightarrow> sl = sl'"
    by (rule slot_addr_inj [OF assms(1)])
  have never: "\<And>sl sl' a. slot_addr target sl = Some a \<Longrightarrow> slot_addr parent sl' = Some a \<Longrightarrow> False"
    using apart_addr [OF assms(3)] by blast
  have com: "\<And>sl sl' a. slot_addr target sl = Some a \<Longrightarrow> slot_addr parent sl' = Some a \<Longrightarrow> sl = sl'"
    using never by blast
  have injp: "\<And>sl sl' a. slot_addr parent sl = Some a \<Longrightarrow> slot_addr parent sl' = Some a \<Longrightarrow> sl = sl'"
    by (rule slot_addr_inj [OF assms(2)])
  have t1: "t1 = fst (combine_factory target parent h)"
    and h1: "h1 = snd (combine_factory target parent h)"
    using one by simp_all
  have first: "\<And>sl. entries h1 t1 sl = entries h target sl @ entries h parent sl"
    unfolding t1 h1 by (rule combine_entries_general(1) [OF inj assms(2) com])
  have keep: "\<And>sl. entries h1 parent sl = entries h parent sl"
  proof -
    fix sl
    show "entries h1 parent sl = entries h parent sl"
    proof (cases "slot_addr parent sl")
      case None
      then show ?thesis by (simp add: entries_def)
    next
      case (Some b)
      have "lists h1 b = lists h b"
        unfolding h1
      proof (rule combine_entries_general(2) [OF inj assms(2) com])
        fix sl' show "slot_addr target sl' \<noteq> Some b"
          using never [OF _ Some] by blast
      qed
      with Some show ?thesis by (simp add: entries_def)
    qed
  qed
  have s1: "\<And>sl. slot_addr t1 sl =
      (case slot_addr target sl of None \<Rightarrow> slot_addr parent sl | Some a \<Rightarrow> Some a)"
    unfolding t1 by (rule slot_addr_combine [OF assms(2)])
  have from1: "\<And>sl a. slot_addr t1 sl = Some a \<Longrightarrow>
      slot_addr target sl = Some a \<or> (slot_addr target sl = None \<and> slot_addr parent sl = Some a)"
    by (simp add: s1 split: option.splits)
  have inj1: "sl = sl'" if a: "slot_addr t1 sl = Some a" and b: "slot_addr t1 sl' = Some a"
    for sl sl' a
    using from1 [OF a] from1 [OF b] inj injp never by blast
  have com1: "sl = sl'" if a: "slot_addr t1 sl = Some a" and b: "slot_addr parent sl' = Some a"
    for sl sl' a
    using from1 [OF a] b injp never by blast
  have t2: "t2 = fst (combine_factory t1 parent h1)"
    and h2: "h2 = snd (combine_factory t1 parent h1)"
    using two by simp_all
  have second: "entries h2 t2 sl = entries h1 t1 sl @ entries h1 parent sl"
    unfolding t2 h2 by (rule combine_entries_general(1) [OF inj1 assms(2) com1])
  have twice: "entries h2 t2 sl = entries h target sl @ entries h parent sl @ entries h parent sl"
    unfolding second first keep by simp
  have injf: "\<And>sl sl' a. slot_addr fresh sl = Some a \<Longrightarrow> slot_addr fresh sl' = Some a \<Longrightarrow> sl = sl'"
    by (rule slot_addr_inj [OF copy(1)])
  have comf: "\<And>sl sl' a. slot_addr fresh sl = Some a \<Longrightarrow> slot_addr parent sl' = Some a \<Longrightarrow> sl = sl'"
    using apart_addr [OF copy(2)] by blast
  have t3: "t3 = fst (combine_factory fresh parent h1)"
    and h3: "h3 = snd (combine_factory fresh parent h1)"
    using three by simp_all
  have third: "entries h3 t3 sl = entries h1 fresh sl @ entries h1 parent sl"
    unfolding t3 h3 by (rule combine_entries_general(1) [OF injf assms(2) comf])
  have again: "entries h3 t3 sl = entries h1 t1 sl"
    unfolding third first keep using copy(3) by simp
  from first [of sl] twice again show ?thesis by simp
qed

text \<open>The theorem on the bot, the plugin and the copy of the bot: the two handlers of
  the plugin for the event \<open>shut\<close> are there twice after the second composition.\<close>

theorem combine_twice_appends_twice_witness:
  "separate bot_factory \<and> separate plugin_factory \<and> apart bot_factory plugin_factory \<and>
   separate bot_copy \<and> apart bot_copy plugin_factory \<and>
   entries (snd (combine_factory bot_factory plugin_factory plugin_store))
     (fst (combine_factory bot_factory plugin_factory plugin_store)) (EventHandlers ''shut'') =
     [Func ''plugin_shut_1'', Func ''plugin_shut_2''] \<and>
   entries
     (snd (combine_factory (fst (combine_factory bot_factory plugin_factory plugin_store))
            plugin_factory (snd (combine_factory bot_factory plugin_factory plugin_store))))
     (fst (combine_factory (fst (combine_factory bot_factory plugin_factory plugin_store))
            plugin_factory (snd (combine_factory bot_factory plugin_factory plugin_store))))
     (EventHandlers ''shut'') =
     [Func ''plugin_shut_1'', Func ''plugin_shut_2'', Func ''plugin_shut_1'', Func ''plugin_shut_2'']"
proof -
  let ?h1 = "snd (combine_factory bot_factory plugin_factory plugin_store)"
  let ?t1 = "fst (combine_factory bot_factory plugin_factory plugin_store)"
  have a: "separate bot_factory" and b: "separate plugin_factory" and f: "separate bot_copy"
    by (simp_all add: separate_def slots_def bot_factory_def plugin_factory_def bot_copy_def)
  have c: "apart bot_factory plugin_factory" and g: "apart bot_copy plugin_factory"
    by (simp_all add: apart_def slots_def bot_factory_def plugin_factory_def bot_copy_def)
  have one: "combine_factory bot_factory plugin_factory plugin_store = (?t1, ?h1)"
    by simp
  have two: "combine_factory ?t1 plugin_factory ?h1 =
      (fst (combine_factory ?t1 plugin_factory ?h1), snd (combine_factory ?t1 plugin_factory ?h1))"
    by simp
  have three: "combine_factory bot_copy plugin_factory ?h1 =
      (fst (combine_factory bot_copy plugin_factory ?h1), snd (combine_factory bot_copy plugin_factory ?h1))"
    by simp
  have l: "lists ?h1 20 = [Keyword ''amiya'']" "lists ?h1 21 = []" "lists ?h1 22 = []"
      "lists ?h1 23 = []" "lists ?h1 24 = []" "lists ?h1 26 = [Func ''bot_open'']"
    by (simp_all add: combine_factory_def bot_factory_def plugin_factory_def plugin_store_def
          iadd_def update_config_def)
  have same: "\<forall>sl. entries ?h1 bot_copy sl = entries plugin_store bot_factory sl"
  proof
    fix sl
    show "entries ?h1 bot_copy sl = entries plugin_store bot_factory sl"
    proof (cases sl)
      case (EventHandlers k)
      have "entries ?h1 bot_copy (EventHandlers k) = (if k = ''open'' then [Func ''bot_open''] else [])"
        by (simp add: entries_def bot_copy_def l)
      moreover have "entries plugin_store bot_factory (EventHandlers k) =
          (if k = ''open'' then [Func ''bot_open''] else [])"
        by (simp add: entries_def bot_factory_def plugin_store_def)
      ultimately show ?thesis using EventHandlers by simp
    next
      case (ExceptionHandlers k)
      then show ?thesis by (simp add: entries_def bot_copy_def bot_factory_def)
    next
      case PrefixKeywords
      have "entries ?h1 bot_copy PrefixKeywords = [Keyword ''amiya'']"
        by (simp add: entries_def bot_copy_def l)
      moreover have "entries plugin_store bot_factory PrefixKeywords = [Keyword ''amiya'']"
        by (simp add: entries_def bot_factory_def plugin_store_def)
      ultimately show ?thesis using PrefixKeywords by simp
    next
      case MessageHandlers
      have "entries ?h1 bot_copy MessageHandlers = []"
        by (simp add: entries_def bot_copy_def l)
      moreover have "entries plugin_store bot_factory MessageHandlers = []"
        by (simp add: entries_def bot_factory_def plugin_store_def)
      ultimately show ?thesis using MessageHandlers by simp
    next
      case AfterReply
      have "entries ?h1 bot_copy AfterReply = []"
        by (simp add: entries_def bot_copy_def l)
      moreover have "entries plugin_store bot_factory AfterReply = []"
        by (simp add: entries_def bot_factory_def plugin_store_def)
      ultimately show ?thesis using AfterReply by simp
    next
      case BeforeReply
      have "entries ?h1 bot_copy BeforeReply = []"
        by (simp add: entries_def bot_copy_def l)
      moreover have "entries plugin_store bot_factory BeforeReply = []"
        by (simp add: entries_def bot_factory_def plugin_store_def)
      ultimately show ?thesis using BeforeReply by simp
    next
      case Middleware
      have "entries ?h1 bot_copy Middleware = []"
        by (simp add: entries_def bot_copy_def l)
      moreover have "entries plugin_store bot_factory Middleware = []"
        by (simp add: entries_def bot_factory_def plugin_store_def)
      ultimately show ?thesis using Middleware by simp
    qed
  qed
  have v: "entries plugin_store bot_factory (EventHandlers ''shut'') = []"
      "entries plugin_store plugin_factory (EventHandlers ''shut'') =
         [Func ''plugin_shut_1'', Func ''plugin_shut_2'']"
    by (simp_all add: entries_def bot_factory_def plugin_factory_def plugin_store_def)
  from combine_twice_appends_twice [OF a b c one two f g same three, of "EventHandlers ''shut''"] a b c f g v
  show ?thesis by simp
qed

subsection \<open>The predicates of a message handler\<close>

text \<open>
  Claim C9, as the code has it: \<^verbatim>\<open>on_message\<close> appends one descriptor to the message
  handlers; its custom check is active exactly when \<open>verify\<close> is given, and its keyword
  set is active exactly when \<open>verify\<close> is not given and \<open>keywords\<close> is not \<^verbatim>\<open>None\<close>. So
  the two are never active together, exactly one is active when at least one of the
  two arguments is given (the custom check when both are), and none is active when
  neither is given.
\<close>

theorem handler_predicates:
  "lists (on_message gid kws verify prefix direct only lvl self f h) (message_handlers self) =
     lists h (message_handlers self) @ [Item (new_handler gid kws verify prefix direct only lvl self f)] \<and>
   verify_active (new_handler gid kws verify prefix direct only lvl self f) = (verify \<noteq> None) \<and>
   keywords_active (new_handler gid kws verify prefix direct only lvl self f) =
     (verify = None \<and> kws \<noteq> JNull)"
  by (simp add: on_message_def list_append_def new_handler_def verify_active_def
        keywords_active_def Let_def)

text \<open>Claim C9 as stated fails for a registration with neither keywords nor a custom
  check: the descriptor has no active predicate.\<close>

theorem handler_without_predicate:
  "lists (on_message None JNull None JNull None False 0 plain_factory ''hello'' empty_store) 1 =
     [Item (new_handler None JNull None JNull None False 0 plain_factory ''hello'')] \<and>
   \<not> keywords_active (new_handler None JNull None JNull None False 0 plain_factory ''hello'') \<and>
   \<not> verify_active (new_handler None JNull None JNull None False 0 plain_factory ''hello'')"
  by (simp add: on_message_def list_append_def new_handler_def verify_active_def
        keywords_active_def Let_def plain_factory_def empty_store_def)

section \<open>Properties of the Tencent adapter\<close>

lemma map_of_dict_set: "map_of (dict_set k v kvs) k' = (if k' = k then Some v else map_of kvs k')"
  by (induction kvs) auto

lemma bot_author_dict:
  assumes "bot_author message"
  obtains kvs author marked where "message = JDict kvs" "map_of kvs ''author'' = Some (JDict author)"
    "map_of author ''bot'' = Some marked" "truthy marked"
proof -
  from assms obtain kvs where m: "message = JDict kvs"
    by (cases message) (auto simp: bot_author_def)
  from assms m obtain a where a: "map_of kvs ''author'' = Some a"
    by (auto simp: bot_author_def split: option.splits)
  from assms m a obtain author where au: "a = JDict author"
    by (cases a) (auto simp: bot_author_def)
  from assms m a au obtain marked where "map_of author ''bot'' = Some marked" "truthy marked"
    by (auto simp: bot_author_def split: option.splits)
  with m a au that show thesis by blast
qed

lemma and_then_Inr: "and_then (Inr x) f = f x"
  by (simp add: and_then_def)

lemma and_then_Inl: "and_then (Inl e) f = Inl e"
  by (simp add: and_then_def)

lemma unmarked_created:
  assumes "bot_author message"
  shows "package_created api (unmarked message) = package_created api message"
    and "suppressed (unmarked message) False = Inr False"
    and "suppressed message is_reference = Inr (\<not> is_reference)"
    and "\<not> bot_author (unmarked message)"
proof -
  from assms obtain kvs author marked where m: "message = JDict kvs"
    and a: "map_of kvs ''author'' = Some (JDict author)"
    and b: "map_of author ''bot'' = Some marked" "truthy marked"
    by (rule bot_author_dict)
  define author' where "author' = filter (\<lambda>kv. fst kv \<noteq> ''bot'') author"
  have u: "unmarked message = JDict (dict_set ''author'' (JDict author') kvs)"
    using m a by (simp add: unmarked_def author'_def)
  have ma: "\<And>k. map_of author' k = (if k = ''bot'' then None else map_of author k)"
    unfolding author'_def
    by (simp add: map_of_filter_key [where P = "\<lambda>k. k \<noteq> ''bot''"])
  have g: "\<And>k. getitem (unmarked message) k =
      (if k = ''author'' then Inr (JDict author') else getitem message k)"
    unfolding u by (simp add: m map_of_dict_set)
  have i: "\<And>k. py_in k (unmarked message) = py_in k message"
    unfolding u using a by (simp add: m map_of_dict_set)
  have gm: "getitem message ''author'' = Inr (JDict author)"
    using m a by simp
  have gs: "\<And>c. getitem (unmarked message) (if c then ''src_guild_id'' else ''guild_id'') =
      getitem message (if c then ''src_guild_id'' else ''guild_id'')"
    by (simp add: g)
  have info: "get_info new_message (unmarked message) = get_info new_message message"
    unfolding get_info_def gs by (simp add: g gm i ma and_then_Inr)
  have "direct_flag (unmarked message) = direct_flag message"
    by (simp add: direct_flag_def g i cong: if_cong)
  moreover have "\<And>data. admin_flag (unmarked message) data = admin_flag message data"
    by (simp add: admin_flag_def g i cong: if_cong)
  moreover have "\<And>data. attachments (unmarked message) data = attachments message data"
    by (simp add: attachments_def g i cong: if_cong)
  moreover have "\<And>data. content_text api (unmarked message) data = content_text api message data"
    by (simp add: content_text_def g i cong: if_cong)
  moreover have "referenced api (unmarked message) = referenced api message"
    by (simp add: referenced_def g i cong: if_cong)
  ultimately show "package_created api (unmarked message) = package_created api message"
    by (simp add: package_created_def info cong: if_cong)
  show "suppressed (unmarked message) False = Inr False"
    by (simp add: suppressed_def g and_then_def ma)
  show "suppressed message is_reference = Inr (\<not> is_reference)"
    using b by (simp add: suppressed_def gm and_then_def)
  show "\<not> bot_author (unmarked message)"
    by (simp add: bot_author_def g ma)
qed

text \<open>
  Claim C7: a message-creation payload whose author is marked as a bot gives \<^verbatim>\<open>None\<close>
  in an ordinary call, for any fuel. In a call that resolves a reference the mark is
  ignored: the payload is packaged exactly as the same payload from an author without
  the mark is packaged in an ordinary call.
\<close>

theorem bot_messages_suppressed:
  assumes "List.member message_created event" "bot_author message"
  shows "package_tencent_message (Suc n) api event message False = Some (Inr None) \<and>
         \<not> bot_author (unmarked message) \<and>
         package_tencent_message (Suc n) api event message True =
           package_tencent_message (Suc n) api event (unmarked message) False"
  using assms(1) unmarked_created(1) [OF assms(2), where api = api]
    unmarked_created(2-4) [OF assms(2)]
  by simp

text \<open>The theorem on the payload of a bot in a direct message: suppressed in an
  ordinary call, packaged with its attachment in a call for a reference.\<close>

theorem bot_messages_suppressed_witness:
  "List.member message_created ''MESSAGE_CREATE'' \<and> bot_author bot_payload \<and>
   package_tencent_message 1 silent_api ''MESSAGE_CREATE'' bot_payload False = Some (Inr None) \<and>
   (\<exists>data. package_tencent_message 1 silent_api ''MESSAGE_CREATE'' bot_payload True =
      Some (Inr (Some (Msg data))) \<and> images data = [''http://cdn/a.png''])"
proof -
  have a: "List.member message_created ''MESSAGE_CREATE''"
    by (simp add: message_created_def)
  have b: "bot_author bot_payload"
    by (simp add: bot_author_def bot_payload_def)
  have u: "unmarked bot_payload =
     JDict [(''id'', JStr ''m1''), (''guild_id'', JStr ''g''), (''channel_id'', JStr ''c''),
            (''author'', JDict [(''id'', JStr ''u1''), (''username'', JStr ''helper'')]),
            (''direct_message'', JBool True),
            (''attachments'', JList [JDict [(''url'', JStr ''cdn/a.png'')]])]"
    by (simp add: unmarked_def bot_payload_def)
  have c: "\<exists>data. package_tencent_message 1 silent_api ''MESSAGE_CREATE'' (unmarked bot_payload) False =
      Some (Inr (Some (Msg data))) \<and> images data = [''http://cdn/a.png'']"
    unfolding u
    by (simp add: message_created_def suppressed_def and_then_def package_created_def get_info_def direct_flag_def
          admin_flag_def attachments_def content_text_def referenced_def new_message_def silent_api_def)
  from bot_messages_suppressed [OF a b, where n = 0 and api = silent_api] a b c
  show ?thesis by simp
qed

text \<open>
  Claim C10: for an event name outside the message-creation names the function
  returns the event that wraps the name and the raw payload, whatever the payload and
  the flag, as soon as there is fuel for the call itself; and whenever the function
  returns \<^verbatim>\<open>None\<close> the event name is one of the message-creation names.
\<close>

theorem events_wrapped:
  "(\<not> List.member message_created event \<longrightarrow>
      package_tencent_message (Suc n) api event message is_reference =
        Some (Inr (Some (Event event message)))) \<and>
   (package_tencent_message fuel api event message is_reference = Some (Inr None) \<longrightarrow>
      List.member message_created event)"
  by (cases fuel) auto

text \<open>The theorem at an event of another kind, and at the suppressed message of a
  bot.\<close>

theorem events_wrapped_witness:
  "\<not> List.member message_created ''GUILD_CREATE'' \<and>
   package_tencent_message 1 silent_api ''GUILD_CREATE'' bot_payload False =
     Some (Inr (Some (Event ''GUILD_CREATE'' bot_payload))) \<and>
   package_tencent_message 1 silent_api ''MESSAGE_CREATE'' bot_payload False = Some (Inr None) \<and>
   List.member message_created ''MESSAGE_CREATE''"
proof -
  have a: "\<not> List.member message_created ''GUILD_CREATE''"
    by (simp add: message_created_def)
  have b: "package_tencent_message 1 silent_api ''MESSAGE_CREATE'' bot_payload False = Some (Inr None)"
    by (simp add: message_created_def suppressed_def and_then_def bot_payload_def)
  from events_wrapped [where event = "''GUILD_CREATE''" and n = 0 and api = silent_api
      and message = bot_payload and is_reference = False and fuel = 1]
    events_wrapped [where event = "''MESSAGE_CREATE''" and n = 0 and api = silent_api
      and message = bot_payload and is_reference = False and fuel = 1]
    a b show ?thesis by simp
qed

end
